theory Spec2Isabelle
  imports Complex_Main
begin

section \<open>Data model\<close>

text \<open>
  The two TypeScript modules \<^verbatim>\<open>fan-in-validation.ts\<close> and
  \<^verbatim>\<open>relationship-intelligence.ts\<close> are embedded as HOL functions.

  Conventions of the embedding:
  \<^item> a JavaScript \<^verbatim>\<open>number\<close> holding an amount, a ratio or a score is a \<open>real\<close>,
    and an operation on such numbers is the IEEE 754 double operation: the exact
    result rounded to the nearest double, ties to even (\<open>dadd\<close>, \<open>dsub\<close>, \<open>dmul\<close>,
    \<open>ddiv\<close>, \<open>dsqrt\<close>); a decimal literal is the double nearest to it. NaN,
    infinities and results beyond the finite range of doubles are outside the model;
  \<^item> a count, an epoch-millisecond value or a rounded sub-score is an \<open>int\<close> or a
    \<open>nat\<close>: sums and differences of integers below \<open>2 ^ 53\<close> are exact in doubles;
  \<^item> the subtraction of the integer reduction from \<open>suspicion_score\<close> is written
    exactly: for a score that is a double below \<open>2 ^ 53\<close> the double subtraction,
    floored at zero, gives the same value (lemma \<open>score_subtraction_exact\<close>);
  \<^item> \<open>timestamp\<close> is the epoch-millisecond value that \<^verbatim>\<open>new Date(ts).getTime()\<close>
    yields for the transaction's timestamp string, an \<open>int\<close>; unparseable
    timestamps are outside the model;
  \<^item> \<^verbatim>\<open>Math.round(x)\<close> is \<open>round x\<close>, that is \<open>\<lfloor>x + 1/2\<rfloor>\<close>;
  \<^item> an array of account objects mutated in place is a list of records that the
    function returns updated; an object reference is an index into that list;
  \<^item> a \<^verbatim>\<open>Map\<close> that the code iterates is an association list in insertion
    order; a \<^verbatim>\<open>Map\<close> or \<^verbatim>\<open>Set\<close> that is only queried is a HOL map or set;
    a \<^verbatim>\<open>Set\<close> whose size is read is a duplicate-free list in insertion order;
  \<^item> the conversion of a number to text inside a template string is the parameter
    \<open>num_str\<close>.
\<close>

text \<open>
  Modelled from the spec: the declaration of \<^verbatim>\<open>RawTransaction\<close> lives in
  \<^verbatim>\<open>types.ts\<close>, which is not among the sources. The four fields are those the
  two modules read; \<open>timestamp\<close> holds the parsed epoch milliseconds.
\<close>

record RawTransaction =
  sender_id :: string
  receiver_id :: string
  amount :: real
  timestamp :: int

datatype fan_in_class = aggregation_candidate | confirmed_money_laundering

text \<open>
  Modelled from the spec: the declaration of \<^verbatim>\<open>AccountNode\<close> lives in
  \<^verbatim>\<open>types.ts\<close>, which is not among the sources. The fields are those the two
  modules read or write, with the types the data model of the specification gives
  them; \<open>fan_in_classification\<close> and \<open>corroboration_checks\<close> are absent (\<open>None\<close>)
  until the fan-in engine assigns them.
\<close>

record AccountNode =
  account_id :: string
  suspicion_score :: real
  is_suspicious :: bool
  total_transactions :: int
  detected_patterns :: "string list"
  explanation :: string
  triggered_algorithms :: "string list"
  fan_in_classification :: "fan_in_class option"
  corroboration_checks :: "string list option"

text \<open>\<^verbatim>\<open>parts.join(', ')\<close>\<close>

fun join :: "string \<Rightarrow> string list \<Rightarrow> string" where
  "join sep [] = []"
| "join sep [x] = x"
| "join sep (x # y # ys) = x @ sep @ join sep (y # ys)"

section \<open>Double arithmetic\<close>

text \<open>Rounding a real to the nearest integer, ties to the even one.\<close>

definition rne :: "real \<Rightarrow> int" where
  "rne x = (let f = \<lfloor>x\<rfloor>; d = x - of_int f
            in if d < 1 / 2 then f
               else if 1 / 2 < d then f + 1
               else if even f then f else f + 1)"

text \<open>The binary exponent of a positive real \<open>x\<close>: \<open>2 powi expo x \<le> x < 2 powi (expo x + 1)\<close>.\<close>

function expo :: "real \<Rightarrow> int" where
  "expo x = (if x \<le> 0 then 0
             else if 2 \<le> x then expo (x / 2) + 1
             else if x < 1 then expo (x * 2) - 1
             else 0)"
  by pat_completeness auto
termination
proof (relation "measure (\<lambda>x. nat \<bar>\<lfloor>log 2 x\<rfloor>\<bar>)")
  show "wf (measure (\<lambda>x. nat \<bar>\<lfloor>log 2 x\<rfloor>\<bar>))" by simp
next
  fix x :: real
  assume "\<not> x \<le> 0" and "2 \<le> x"
  then have "log 2 (x / 2) = log 2 x - 1" and "1 \<le> log 2 x"
    by (simp_all add: log_divide_pos le_log_iff)
  then have "\<lfloor>log 2 (x / 2)\<rfloor> = \<lfloor>log 2 x\<rfloor> - 1" and "1 \<le> \<lfloor>log 2 x\<rfloor>"
    by simp_all
  then show "(x / 2, x) \<in> measure (\<lambda>x. nat \<bar>\<lfloor>log 2 x\<rfloor>\<bar>)"
    by simp
next
  fix x :: real
  assume "\<not> x \<le> 0" and "\<not> 2 \<le> x" and "x < 1"
  then have "log 2 (x * 2) = log 2 x + 1" and "log 2 x < 0"
    by (simp_all add: log_mult_pos)
  then have a: "\<lfloor>log 2 (x * 2)\<rfloor> = \<lfloor>log 2 x\<rfloor> + 1" and b: "\<lfloor>log 2 x\<rfloor> < 0"
    by (simp_all add: floor_less_iff)
  have "nat \<bar>\<lfloor>log 2 x\<rfloor> + 1\<bar> < nat \<bar>\<lfloor>log 2 x\<rfloor>\<bar>"
    using b by linarith
  then show "(x * 2, x) \<in> measure (\<lambda>x. nat \<bar>\<lfloor>log 2 x\<rfloor>\<bar>)"
    unfolding a [symmetric] by simp
qed

declare expo.simps [simp del]

text \<open>
  The double nearest to a real: 53 significant bits, the least exponent that of the
  subnormal numbers.
\<close>

definition round_double :: "real \<Rightarrow> real" where
  "round_double x =
     (if x = 0 then 0
      else (let q = max (expo \<bar>x\<bar> - 52) (- 1074)
            in of_int (rne (x / 2 powi q)) * 2 powi q))"

definition dadd :: "real \<Rightarrow> real \<Rightarrow> real" where
  "dadd x y = round_double (x + y)"

definition dsub :: "real \<Rightarrow> real \<Rightarrow> real" where
  "dsub x y = round_double (x - y)"

definition dmul :: "real \<Rightarrow> real \<Rightarrow> real" where
  "dmul x y = round_double (x * y)"

definition ddiv :: "real \<Rightarrow> real \<Rightarrow> real" where
  "ddiv x y = round_double (x / y)"

definition dsqrt :: "real \<Rightarrow> real" where
  "dsqrt x = round_double (sqrt x)"

section \<open>Relationship intelligence\<close>

definition MIN_RECURRING_TX_COUNT :: nat where
  "MIN_RECURRING_TX_COUNT = 3"

definition MIN_RECURRING_SPAN_MS :: int where
  "MIN_RECURRING_SPAN_MS = 30 * 24 * 60 * 60 * 1000"

definition MAX_TOTAL_REDUCTION :: int where
  "MAX_TOTAL_REDUCTION = 50"

definition DURATION_TIER_1_MS :: int where
  "DURATION_TIER_1_MS = 60 * 24 * 60 * 60 * 1000"

definition DURATION_TIER_2_MS :: int where
  "DURATION_TIER_2_MS = 120 * 24 * 60 * 60 * 1000"

definition CV_THRESHOLD :: real where
  "CV_THRESHOLD = round_double 0.20"

definition PERIODICITY_MATCH_RATIO :: real where
  "PERIODICITY_MATCH_RATIO = round_double 0.70"

definition PERIODICITY_TOLERANCE :: real where
  "PERIODICITY_TOLERANCE = round_double 0.25"

definition pairKey :: "string \<Rightarrow> string \<Rightarrow> string" where
  "pairKey s r = s @ ''|'' @ r"

record PairStats =
  sender :: string
  receiver :: string
  amounts :: "real list"
  timestamps :: "int list"
  spanMs :: int

record ScoreReduction =
  recurring :: int
  duration :: int
  consistency :: int
  periodicity :: int

subsection \<open>Step 1: per-pair statistics\<close>

text \<open>
  One iteration of the grouping loop. The map is keyed by the \<open>pairKey\<close> string; a
  new entry takes sender and receiver from the transaction that creates it.
\<close>

definition add_to_pair ::
  "RawTransaction \<Rightarrow> (string \<times> PairStats) list \<Rightarrow> (string \<times> PairStats) list" where
  "add_to_pair tx pairMap =
     (let key = pairKey (sender_id tx) (receiver_id tx);
          push = (\<lambda>stats. stats\<lparr>amounts := amounts stats @ [amount tx],
                                  timestamps := timestamps stats @ [timestamp tx]\<rparr>)
      in case map_of pairMap key of
           None \<Rightarrow>
             pairMap @ [(key, push \<lparr>sender = sender_id tx, receiver = receiver_id tx,
                                     amounts = [], timestamps = [], spanMs = 0\<rparr>)]
         | Some _ \<Rightarrow>
             map (\<lambda>(k, stats). if k = key then (k, push stats) else (k, stats)) pairMap)"

definition build_pairMap :: "RawTransaction list \<Rightarrow> (string \<times> PairStats) list" where
  "build_pairMap transactions = fold add_to_pair transactions []"

text \<open>
  Sorting the timestamps and taking the span. Every entry of the map holds at least
  one timestamp, so \<open>hd\<close> and \<open>last\<close> are read on non-empty lists only.
\<close>

definition sort_and_span :: "PairStats \<Rightarrow> PairStats" where
  "sort_and_span stats =
     (let ts = sort (timestamps stats)
      in stats\<lparr>timestamps := ts, spanMs := last ts - hd ts\<rparr>)"

definition pair_stats :: "RawTransaction list \<Rightarrow> PairStats list" where
  "pair_stats transactions = map (\<lambda>(k, stats). sort_and_span stats) (build_pairMap transactions)"

subsection \<open>Step 2: qualifying pairs\<close>

definition qualifies :: "PairStats \<Rightarrow> bool" where
  "qualifies stats \<longleftrightarrow>
     length (amounts stats) \<ge> MIN_RECURRING_TX_COUNT \<and> spanMs stats \<ge> MIN_RECURRING_SPAN_MS"

definition qualifyingPairs :: "RawTransaction list \<Rightarrow> PairStats list" where
  "qualifyingPairs transactions = filter qualifies (pair_stats transactions)"

subsection \<open>Step 3: the four sub-scores and the per-account maxima\<close>

definition recurringReduction :: "PairStats \<Rightarrow> int" where
  "recurringReduction pair =
     min 25 (round (dadd 10 (dmul (ddiv (dsub (real (length (amounts pair))) 3) 7) 15)))"

definition durationReduction :: "PairStats \<Rightarrow> int" where
  "durationReduction pair =
     (if spanMs pair \<ge> DURATION_TIER_2_MS then 20
      else if spanMs pair \<ge> DURATION_TIER_1_MS then 10
      else 0)"

text \<open>\<^verbatim>\<open>x ** 2\<close>, taken as the rounded square.\<close>

definition dsquare :: "real \<Rightarrow> real" where
  "dsquare x = round_double (x ^ 2)"

definition consistencyReduction :: "PairStats \<Rightarrow> int" where
  "consistencyReduction pair =
     (if length (amounts pair) \<ge> 2 then
        (let mean = ddiv (foldl (\<lambda>s a. dadd s a) 0 (amounts pair))
                         (real (length (amounts pair)))
         in if mean > 0 then
              (let variance = ddiv (foldl (\<lambda>s a. dadd s (dsquare (dsub a mean))) 0 (amounts pair))
                                   (real (length (amounts pair)));
                   stdDev = dsqrt variance;
                   cv = ddiv stdDev mean
               in if cv < CV_THRESHOLD
                  then round (dmul 15 (dsub 1 (ddiv cv CV_THRESHOLD)))
                  else 0)
            else 0)
      else 0)"

definition gaps_of :: "int list \<Rightarrow> int list" where
  "gaps_of ts = map (\<lambda>i. ts ! i - ts ! (i - 1)) [1..<length ts]"

definition periodicityReduction :: "PairStats \<Rightarrow> int" where
  "periodicityReduction pair =
     (if length (timestamps pair) \<ge> 3 then
        (let gaps = gaps_of (timestamps pair);
             avgGap = ddiv (real_of_int (foldl (\<lambda>s g. s + g) 0 gaps)) (real (length gaps))
         in if avgGap > 0 then
              (let lo = dmul avgGap (dsub 1 PERIODICITY_TOLERANCE);
                   hi = dmul avgGap (dadd 1 PERIODICITY_TOLERANCE);
                   matchCount = length (filter (\<lambda>g. real_of_int g \<ge> lo \<and> real_of_int g \<le> hi) gaps);
                   matchRatio = ddiv (real matchCount) (real (length gaps))
               in if matchRatio \<ge> PERIODICITY_MATCH_RATIO then
                    round (dadd 10 (dmul (ddiv (dsub matchRatio PERIODICITY_MATCH_RATIO)
                                               (dsub 1 PERIODICITY_MATCH_RATIO)) 10))
                  else 0)
            else 0)
      else 0)"

definition ensureReduction :: "(string \<rightharpoonup> ScoreReduction) \<Rightarrow> string \<Rightarrow> ScoreReduction" where
  "ensureReduction accountReductions ident =
     (case accountReductions ident of
        None \<Rightarrow> \<lparr>recurring = 0, duration = 0, consistency = 0, periodicity = 0\<rparr>
      | Some r \<Rightarrow> r)"

definition apply_best ::
  "PairStats \<Rightarrow> string \<Rightarrow> (string \<rightharpoonup> ScoreReduction) \<Rightarrow> (string \<rightharpoonup> ScoreReduction)" where
  "apply_best pair accountId accountReductions =
     (let r = ensureReduction accountReductions accountId
      in accountReductions(accountId \<mapsto>
           \<lparr>recurring = max (recurring r) (recurringReduction pair),
            duration = max (duration r) (durationReduction pair),
            consistency = max (consistency r) (consistencyReduction pair),
            periodicity = max (periodicity r) (periodicityReduction pair)\<rparr>))"

definition add_pair_reductions ::
  "PairStats \<Rightarrow> (string \<rightharpoonup> ScoreReduction) \<Rightarrow> (string \<rightharpoonup> ScoreReduction)" where
  "add_pair_reductions pair accountReductions =
     fold (apply_best pair) [sender pair, receiver pair] accountReductions"

definition accountReductions :: "RawTransaction list \<Rightarrow> (string \<rightharpoonup> ScoreReduction)" where
  "accountReductions transactions =
     fold add_pair_reductions (qualifyingPairs transactions) Map.empty"

subsection \<open>Step 4: capped reduction of the account scores\<close>

definition totalReduction :: "ScoreReduction \<Rightarrow> int" where
  "totalReduction r =
     min MAX_TOTAL_REDUCTION (recurring r + duration r + consistency r + periodicity r)"

definition breakdown :: "(real \<Rightarrow> string) \<Rightarrow> ScoreReduction \<Rightarrow> string list" where
  "breakdown num_str r =
     (if recurring r > 0 then [''recurring_pair(-'' @ num_str (of_int (recurring r)) @ '')''] else [])
     @ (if duration r > 0 then [''long_relationship(-'' @ num_str (of_int (duration r)) @ '')''] else [])
     @ (if consistency r > 0 then [''amount_consistency(-'' @ num_str (of_int (consistency r)) @ '')''] else [])
     @ (if periodicity r > 0 then [''monthly_periodicity(-'' @ num_str (of_int (periodicity r)) @ '')''] else [])"

text \<open>The arrow U+2192 of the explanation text, as its three UTF-8 bytes.\<close>

definition arrow :: string where
  "arrow = [CHR 0xE2, CHR 0x86, CHR 0x92]"

definition note_text :: "(real \<Rightarrow> string) \<Rightarrow> ScoreReduction \<Rightarrow> real \<Rightarrow> real \<Rightarrow> string" where
  "note_text num_str r oldScore newScore =
     '' | Relationship Intelligence: score reduced by '' @ num_str (of_int (totalReduction r))
     @ '' ('' @ num_str oldScore @ arrow @ num_str newScore @ '') [''
     @ join '', '' (breakdown num_str r) @ '']''"

text \<open>The body of the loop over the accounts; each \<^verbatim>\<open>continue\<close> returns the account as it is.\<close>

definition adjust_account ::
  "(real \<Rightarrow> string) \<Rightarrow> string set \<Rightarrow> (string \<rightharpoonup> ScoreReduction) \<Rightarrow> AccountNode \<Rightarrow> AccountNode" where
  "adjust_account num_str cycleMembers reductions account =
     (if account_id account \<in> cycleMembers then account
      else if suspicion_score account \<le> 0 then account
      else case reductions (account_id account) of
             None \<Rightarrow> account
           | Some r \<Rightarrow>
               if totalReduction r \<le> 0 then account
               else
                 (let oldScore = suspicion_score account;
                      newScore = max 0 (oldScore - of_int (totalReduction r))
                  in account\<lparr>suspicion_score := newScore,
                              triggered_algorithms :=
                                triggered_algorithms account @ [''relationship_intelligence''],
                              explanation :=
                                explanation account @ note_text num_str r oldScore newScore,
                              is_suspicious := newScore > 0\<rparr>))"

definition adjustScoresUsingRelationshipIntelligence ::
  "(real \<Rightarrow> string) \<Rightarrow> AccountNode list \<Rightarrow> RawTransaction list \<Rightarrow> string set
     \<Rightarrow> AccountNode list" where
  "adjustScoresUsingRelationshipIntelligence num_str accounts transactions cycleMembers =
     map (adjust_account num_str cycleMembers (accountReductions transactions)) accounts"

section \<open>Two-phase fan-in validation\<close>

definition FAN_IN_WINDOW_MS :: int where
  "FAN_IN_WINDOW_MS = 72 * 60 * 60 * 1000"

definition MIN_UNIQUE_SENDERS :: nat where
  "MIN_UNIQUE_SENDERS = 3"

definition AMOUNT_TOLERANCE :: real where
  "AMOUNT_TOLERANCE = round_double 0.20"

definition RAPID_OUTFLOW_WINDOW_MS :: int where
  "RAPID_OUTFLOW_WINDOW_MS = 24 * 60 * 60 * 1000"

definition RAPID_OUTFLOW_RATIO :: real where
  "RAPID_OUTFLOW_RATIO = round_double 0.50"

definition LOW_ACTIVITY_TX_THRESHOLD :: int where
  "LOW_ACTIVITY_TX_THRESHOLD = 3"

text \<open>
  The adjacency list: the outer \<^verbatim>\<open>Map\<close> is only queried with \<^verbatim>\<open>get\<close>, the inner
  one is iterated.
\<close>

type_synonym AdjList = "string \<rightharpoonup> (string \<times> RawTransaction list) list"

record AggregationCandidate =
  accountId :: string
  senders :: "string list"
  totalReceived :: real
  windowStart :: int
  windowEnd :: int

subsection \<open>Phase 1: aggregation candidates\<close>

text \<open>\<^verbatim>\<open>Set.add\<close> on a set kept as a duplicate-free list.\<close>

definition set_add :: "'a \<Rightarrow> 'a list \<Rightarrow> 'a list" where
  "set_add x s = (if x \<in> set s then s else s @ [x])"

definition push_by_receiver ::
  "RawTransaction \<Rightarrow> (string \<times> RawTransaction list) list \<Rightarrow> (string \<times> RawTransaction list) list" where
  "push_by_receiver tx byRec =
     (let byRec' = (if map_of byRec (receiver_id tx) = None
                    then byRec @ [(receiver_id tx, [])] else byRec)
      in map (\<lambda>(k, txs). if k = receiver_id tx then (k, txs @ [tx]) else (k, txs)) byRec')"

definition byReceiver :: "RawTransaction list \<Rightarrow> (string \<times> RawTransaction list) list" where
  "byReceiver transactions = fold push_by_receiver transactions []"

text \<open>The inner \<^verbatim>\<open>while\<close> loop that advances the left end of the window.\<close>

function slide_left :: "RawTransaction list \<Rightarrow> nat \<Rightarrow> nat \<Rightarrow> nat" where
  "slide_left sorted_txs right left =
     (if left < right \<and> timestamp (sorted_txs ! right) - timestamp (sorted_txs ! left) > FAN_IN_WINDOW_MS
      then slide_left sorted_txs right (Suc left)
      else left)"
  by pat_completeness auto
termination
  by (relation "measure (\<lambda>(sorted_txs, right, left). right - left)") auto

declare slide_left.simps [simp del]

definition sendersInWindow :: "RawTransaction list \<Rightarrow> nat \<Rightarrow> nat \<Rightarrow> string list" where
  "sendersInWindow sorted_txs left right =
     fold (\<lambda>i s. set_add (sender_id (sorted_txs ! i)) s) [left..<Suc right] []"

text \<open>
  One iteration of the loop over \<open>right\<close>. The state is the left pointer and the best
  window so far (\<open>bestSenders\<close>, \<open>bestLeft\<close>, \<open>bestRight\<close>), \<open>None\<close> while
  \<open>bestSenders\<close> is \<^verbatim>\<open>null\<close>.
\<close>

definition window_step ::
  "RawTransaction list \<Rightarrow> nat \<Rightarrow> nat \<times> (string list \<times> nat \<times> nat) option
     \<Rightarrow> nat \<times> (string list \<times> nat \<times> nat) option" where
  "window_step sorted_txs right st =
     (let left = slide_left sorted_txs right (fst st);
          inWindow = sendersInWindow sorted_txs left right
      in if length inWindow \<ge> MIN_UNIQUE_SENDERS then
           (case snd st of
              None \<Rightarrow> (left, Some (inWindow, left, right))
            | Some (bestSenders, bestLeft, bestRight) \<Rightarrow>
                if length inWindow > length bestSenders
                then (left, Some (inWindow, left, right))
                else (left, snd st))
         else (left, snd st))"

definition best_window :: "RawTransaction list \<Rightarrow> (string list \<times> nat \<times> nat) option" where
  "best_window sorted_txs = snd (fold (window_step sorted_txs) [0..<length sorted_txs] (0, None))"

definition received_in_window :: "RawTransaction list \<Rightarrow> string list \<Rightarrow> nat \<Rightarrow> nat \<Rightarrow> real" where
  "received_in_window sorted_txs bestSenders bestLeft bestRight =
     fold (\<lambda>i total. if sender_id (sorted_txs ! i) \<in> set bestSenders
                      then dadd total (amount (sorted_txs ! i)) else total)
          [bestLeft..<Suc bestRight] 0"

definition candidates_of_receiver :: "string \<times> RawTransaction list \<Rightarrow> AggregationCandidate list" where
  "candidates_of_receiver entry =
     (let receiver = fst entry;
          sorted_txs = sort_key timestamp (snd entry)
      in case best_window sorted_txs of
           None \<Rightarrow> []
         | Some (bestSenders, bestLeft, bestRight) \<Rightarrow>
             [\<lparr>accountId = receiver,
               senders = bestSenders,
               totalReceived = received_in_window sorted_txs bestSenders bestLeft bestRight,
               windowStart = timestamp (sorted_txs ! bestLeft),
               windowEnd = timestamp (sorted_txs ! bestRight)\<rparr>])"

definition identifyAggregationCandidates :: "RawTransaction list \<Rightarrow> AggregationCandidate list" where
  "identifyAggregationCandidates transactions =
     concat (map candidates_of_receiver (byReceiver transactions))"

subsection \<open>Phase 2: the four corroboration checks\<close>

text \<open>The loop over the hops of the intermediary: the first hop that is not the candidate returns.\<close>

fun forwards_onward :: "string \<Rightarrow> (string \<times> RawTransaction list) list \<Rightarrow> bool" where
  "forwards_onward candidateId [] = False"
| "forwards_onward candidateId ((nextHop, txs) # rest) =
     (if nextHop \<noteq> candidateId then True else forwards_onward candidateId rest)"

text \<open>The loop over the outgoing neighbours of the candidate.\<close>

fun shell_scan ::
  "string \<Rightarrow> real \<Rightarrow> AdjList \<Rightarrow> (string \<rightharpoonup> AccountNode) \<Rightarrow> (string \<times> RawTransaction list) list
     \<Rightarrow> bool" where
  "shell_scan candidateId received graph accountMap [] = False"
| "shell_scan candidateId received graph accountMap ((neighborId, txs) # rest) =
     (case accountMap neighborId of
        None \<Rightarrow> shell_scan candidateId received graph accountMap rest
      | Some neighbor \<Rightarrow>
          if total_transactions neighbor > LOW_ACTIVITY_TX_THRESHOLD
          then shell_scan candidateId received graph accountMap rest
          else
            (let outAmount = foldl (\<lambda>sum tx. dadd sum (amount tx)) 0 txs;
                 lowerBound = dmul received (dsub 1 AMOUNT_TOLERANCE)
             in if outAmount \<ge> dmul lowerBound 0.5
                   \<and> (case graph neighborId of
                         None \<Rightarrow> False
                       | Some hopNeighbors \<Rightarrow>
                           length hopNeighbors > 0 \<and> forwards_onward candidateId hopNeighbors)
                then True
                else shell_scan candidateId received graph accountMap rest))"

definition checkShellChainInvolvement ::
  "string \<Rightarrow> real \<Rightarrow> AdjList \<Rightarrow> (string \<rightharpoonup> AccountNode) \<Rightarrow> bool" where
  "checkShellChainInvolvement candidateId received graph accountMap =
     (case graph candidateId of
        None \<Rightarrow> False
      | Some outNeighbors \<Rightarrow> shell_scan candidateId received graph accountMap outNeighbors)"

definition checkCycleParticipation :: "string \<Rightarrow> string set \<Rightarrow> AdjList \<Rightarrow> bool" where
  "checkCycleParticipation candidateId cycleNodes graph =
     (if candidateId \<in> cycleNodes then True
      else case graph candidateId of
             None \<Rightarrow> False
           | Some outNeighbors \<Rightarrow> list_ex (\<lambda>(neighborId, txs). neighborId \<in> cycleNodes) outNeighbors)"

definition checkRapidLayeredOutflow ::
  "string \<Rightarrow> AggregationCandidate \<Rightarrow> RawTransaction list \<Rightarrow> bool" where
  "checkRapidLayeredOutflow candidateId candidate transactions =
     (let outgoingAfterAggregation =
            filter (\<lambda>tx. sender_id tx = candidateId
                          \<and> timestamp tx \<ge> windowStart candidate
                          \<and> timestamp tx \<le> windowEnd candidate + RAPID_OUTFLOW_WINDOW_MS)
                   transactions
      in if length outgoingAfterAggregation = 0 then False
         else
           (let sorted_txs = sort_key timestamp outgoingAfterAggregation;
                totalOutflow = fold (\<lambda>tx total. dadd total (amount tx)) sorted_txs 0
            in totalOutflow \<ge> dmul (totalReceived candidate) RAPID_OUTFLOW_RATIO))"

definition checkRoleConflict :: "string \<Rightarrow> string set \<Rightarrow> string set \<Rightarrow> string set \<Rightarrow> bool" where
  "checkRoleConflict candidateId shellNodes fanOutNodes cycleNodes =
     (if candidateId \<in> shellNodes then True
      else if candidateId \<in> fanOutNodes then True
      else if candidateId \<in> cycleNodes then True
      else False)"

subsection \<open>The entry point\<close>

text \<open>
  \<^verbatim>\<open>accountMap\<close> maps an account id to the object stored last under that id. The
  object is the index of the account in the list; \<open>account_lookup\<close> reads the
  object behind an id in the current list.
\<close>

definition index_accounts :: "AccountNode list \<Rightarrow> (string \<rightharpoonup> nat)" where
  "index_accounts accounts =
     fold (\<lambda>i m. m(account_id (accounts ! i) \<mapsto> i)) [0..<length accounts] Map.empty"

definition account_lookup :: "(string \<rightharpoonup> nat) \<Rightarrow> AccountNode list \<Rightarrow> (string \<rightharpoonup> AccountNode)" where
  "account_lookup accountMap accounts ident = map_option (\<lambda>i. accounts ! i) (accountMap ident)"

definition triggered_checks ::
  "RawTransaction list \<Rightarrow> AdjList \<Rightarrow> (string \<rightharpoonup> AccountNode) \<Rightarrow> string set \<Rightarrow> string set
     \<Rightarrow> string set \<Rightarrow> AggregationCandidate \<Rightarrow> string list" where
  "triggered_checks transactions graph accountMap cycleNodes shellNodes fanOutNodes candidate =
     (if checkShellChainInvolvement (accountId candidate) (totalReceived candidate) graph accountMap
      then [''shell_chain_involvement''] else [])
     @ (if checkCycleParticipation (accountId candidate) cycleNodes graph
        then [''cycle_ring_participation''] else [])
     @ (if checkRapidLayeredOutflow (accountId candidate) candidate transactions
        then [''rapid_layered_outflow''] else [])
     @ (if checkRoleConflict (accountId candidate) shellNodes fanOutNodes cycleNodes
        then [''role_conflict''] else [])"

text \<open>The assignments to the account found for a candidate, given the triggered checks.\<close>

definition classify :: "string list \<Rightarrow> AccountNode \<Rightarrow> AccountNode" where
  "classify triggeredChecks account =
     (let a1 = account\<lparr>corroboration_checks := Some triggeredChecks\<rparr>;
          a2 = (if length triggeredChecks > 0
                then a1\<lparr>fan_in_classification := Some confirmed_money_laundering\<rparr>
                else a1\<lparr>fan_in_classification := Some aggregation_candidate\<rparr>);
          a3 = (if ''Two-Phase Fan-In Validation'' \<in> set (triggered_algorithms a2) then a2
                else a2\<lparr>triggered_algorithms :=
                          triggered_algorithms a2 @ [''Two-Phase Fan-In Validation'']\<rparr>);
          classLabel = (if fan_in_classification a3 = Some confirmed_money_laundering
                        then ''CONFIRMED MONEY LAUNDERING''
                        else ''AGGREGATION CANDIDATE (unconfirmed)'');
          checksStr = (if length triggeredChecks > 0
                       then ''Corroboration: '' @ join '', '' triggeredChecks
                       else ''No corroboration evidence found'')
      in a3\<lparr>explanation :=
              explanation a3 @ ''. Fan-In Validation: '' @ classLabel @ ''. '' @ checksStr\<rparr>)"

text \<open>The body of the loop over the candidates; a candidate without an account is skipped.\<close>

definition corroborate ::
  "RawTransaction list \<Rightarrow> AdjList \<Rightarrow> (string \<rightharpoonup> nat) \<Rightarrow> string set \<Rightarrow> string set \<Rightarrow> string set
     \<Rightarrow> AggregationCandidate \<Rightarrow> AccountNode list \<Rightarrow> AccountNode list" where
  "corroborate transactions graph accountMap cycleNodes shellNodes fanOutNodes candidate accounts =
     (case accountMap (accountId candidate) of
        None \<Rightarrow> accounts
      | Some i \<Rightarrow>
          accounts[i := classify
                          (triggered_checks transactions graph (account_lookup accountMap accounts)
                             cycleNodes shellNodes fanOutNodes candidate)
                          (accounts ! i)])"

definition validateFanInTwoPhase ::
  "AccountNode list \<Rightarrow> RawTransaction list \<Rightarrow> AdjList \<Rightarrow> string list list \<Rightarrow> string list list
     \<Rightarrow> (string \<times> string set) list \<Rightarrow> AccountNode list" where
  "validateFanInTwoPhase accounts transactions graph cycles shellChains fanOutMap =
     (let accountMap = index_accounts accounts;
          cycleNodes = set (concat cycles);
          shellNodes = set (concat shellChains);
          fanOutNodes = fst ` set fanOutMap;
          candidates = identifyAggregationCandidates transactions
      in fold (corroborate transactions graph accountMap cycleNodes shellNodes fanOutNodes)
              candidates accounts)"

section \<open>Auxiliary predicates and sample data\<close>


text \<open>
  Sample batch: four payments of 1000 from X to Y, thirty days apart (the scenario
  of the specification), and an account record with a given id and score.
\<close>

definition day_ms :: int where
  "day_ms = 24 * 60 * 60 * 1000"

definition hour_ms :: int where
  "hour_ms = 60 * 60 * 1000"

definition mk_tx :: "string \<Rightarrow> string \<Rightarrow> real \<Rightarrow> int \<Rightarrow> RawTransaction" where
  "mk_tx s r a t = \<lparr>sender_id = s, receiver_id = r, amount = a, timestamp = t\<rparr>"

definition mk_account :: "string \<Rightarrow> real \<Rightarrow> int \<Rightarrow> AccountNode" where
  "mk_account ident score n =
     \<lparr>account_id = ident, suspicion_score = score, is_suspicious = (score > 0),
      total_transactions = n, detected_patterns = [], explanation = ''upstream'',
      triggered_algorithms = [], fan_in_classification = None, corroboration_checks = None\<rparr>"

definition monthly_txs :: "RawTransaction list" where
  "monthly_txs =
     [mk_tx ''X'' ''Y'' 1000 0, mk_tx ''X'' ''Y'' 1000 (30 * day_ms),
      mk_tx ''X'' ''Y'' 1000 (60 * day_ms), mk_tx ''X'' ''Y'' 1000 (90 * day_ms)]"

definition monthly_pair :: PairStats where
  "monthly_pair =
     \<lparr>sender = ''X'', receiver = ''Y'', amounts = [1000, 1000, 1000, 1000],
      timestamps = [0, 2592000000, 5184000000, 7776000000], spanMs = 7776000000\<rparr>"

definition monthly_reduction :: ScoreReduction where
  "monthly_reduction = \<lparr>recurring = 12, duration = 10, consistency = 15, periodicity = 20\<rparr>"

definition plain_num :: "real \<Rightarrow> string" where
  "plain_num x = ''#''"


text \<open>
  The same predicate with the second condition as the code computes it: the amounts
  added up from the left in double arithmetic, against the threshold
  \<^verbatim>\<open>totalReceived * (1 - AMOUNT_TOLERANCE) * 0.5\<close> in double arithmetic.
\<close>

definition shell_threshold :: "real \<Rightarrow> real" where
  "shell_threshold received = dmul (dmul received (dsub 1 AMOUNT_TOLERANCE)) 0.5"



text \<open>
  Sample data for the fan-in engine: R receives 100 from each of A, B and C within
  ten hours and forwards 290 to N, an account with one transaction, which forwards
  to M.
\<close>

definition scenario_graph :: AdjList where
  "scenario_graph =
     [''R'' \<mapsto> [(''N'', [mk_tx ''R'' ''N'' 290 (11 * hour_ms)])],
      ''N'' \<mapsto> [(''M'', [mk_tx ''N'' ''M'' 290 (12 * hour_ms)])]]"



definition scenario_accounts :: "string \<rightharpoonup> AccountNode" where
  "scenario_accounts = [''R'' \<mapsto> mk_account ''R'' 10 4, ''N'' \<mapsto> mk_account ''N'' 0 1]"

text \<open>The four check names, and an account whose two fan-in fields agree with each other.\<close>

definition check_names :: "string set" where
  "check_names = {''shell_chain_involvement'', ''cycle_ring_participation'',
                  ''rapid_layered_outflow'', ''role_conflict''}"

definition classified :: "AccountNode \<Rightarrow> bool" where
  "classified a \<longleftrightarrow>
     (\<exists>checks. corroboration_checks a = Some checks \<and> set checks \<subseteq> check_names
        \<and> fan_in_classification a
            = Some (if checks = [] then aggregation_candidate else confirmed_money_laundering))"

definition fan_txs :: "RawTransaction list" where
  "fan_txs = [mk_tx ''A'' ''R'' 100 0, mk_tx ''B'' ''R'' 100 (5 * hour_ms),
              mk_tx ''C'' ''R'' 100 (10 * hour_ms)]"

definition scenario_txs :: "RawTransaction list" where
  "scenario_txs = fan_txs @ [mk_tx ''R'' ''N'' 290 (11 * hour_ms), mk_tx ''N'' ''M'' 290 (12 * hour_ms)]"

definition two_receiver_txs :: "RawTransaction list" where
  "two_receiver_txs = fan_txs @ [mk_tx ''A'' ''Q'' 50 0, mk_tx ''B'' ''Q'' 50 hour_ms,
              mk_tx ''C'' ''Q'' 50 (2 * hour_ms)]"

text \<open>
  The windows of the specification: the transactions an account receives, the
  senders among them whose timestamps lie in the 72 hours that start at \<open>t\<close>, and
  the existence of a start \<open>t\<close> with at least three such senders.
\<close>

definition spec_incoming :: "RawTransaction list \<Rightarrow> string \<Rightarrow> RawTransaction list" where
  "spec_incoming transactions ident = filter (\<lambda>tx. receiver_id tx = ident) transactions"

definition spec_window_senders :: "RawTransaction list \<Rightarrow> int \<Rightarrow> string set" where
  "spec_window_senders txs t =
     set (map sender_id (filter (\<lambda>tx. t \<le> timestamp tx \<and> timestamp tx \<le> t + FAN_IN_WINDOW_MS) txs))"

definition spec_has_fan_in_window :: "RawTransaction list \<Rightarrow> string \<Rightarrow> bool" where
  "spec_has_fan_in_window transactions ident \<longleftrightarrow>
     (\<exists>t. MIN_UNIQUE_SENDERS \<le> card (spec_window_senders (spec_incoming transactions ident) t))"

text \<open>Three senders to R, forty hours apart: no 72-hour window holds all three.\<close>

definition spread_txs :: "RawTransaction list" where
  "spread_txs = [mk_tx ''A'' ''R'' 100 0, mk_tx ''B'' ''R'' 100 (40 * hour_ms),
                 mk_tx ''C'' ''R'' 100 (80 * hour_ms)]"

text \<open>What the scan maintains for the best window it has found.\<close>

definition good_window :: "RawTransaction list \<Rightarrow> string list \<times> nat \<times> nat \<Rightarrow> bool" where
  "good_window srt w \<longleftrightarrow>
     (case w of (bs, bl, br) \<Rightarrow>
        bl \<le> br \<and> br < length srt \<and> bs = sendersInWindow srt bl br
        \<and> MIN_UNIQUE_SENDERS \<le> length bs
        \<and> timestamp (srt ! br) - timestamp (srt ! bl) \<le> FAN_IN_WINDOW_MS)"



section \<open>Properties of double arithmetic\<close>

lemma expo_bounds:
  "0 < x \<Longrightarrow> 2 powi expo x \<le> x \<and> x < 2 powi (expo x + 1)"
proof (induction x rule: expo.induct)
  case (1 x)
  show ?case
  proof (cases "2 \<le> x")
    case True
    then have e: "expo x = expo (x / 2) + 1"
      using "1.prems" by (subst expo.simps) simp
    from "1.IH"(1) [of] True "1.prems"
    have "2 powi expo (x / 2) \<le> x / 2 \<and> x / 2 < 2 powi (expo (x / 2) + 1)"
      by simp
    moreover have "2 powi (expo (x / 2) + 1) = 2 * (2::real) powi expo (x / 2)"
      "2 powi (expo (x / 2) + 1 + 1) = 2 * (2::real) powi (expo (x / 2) + 1)"
      using power_int_add_1' [of "2::real" "expo (x / 2)"]
        power_int_add_1' [of "2::real" "expo (x / 2) + 1"] by simp_all
    ultimately show ?thesis
      unfolding e by linarith
  next
    case False
    show ?thesis
    proof (cases "x < 1")
      case True
      then have e: "expo x = expo (x * 2) - 1"
        using "1.prems" False by (subst expo.simps) simp
      from "1.IH"(2) [of] True False "1.prems"
      have ih: "2 powi expo (x * 2) \<le> x * 2 \<and> x * 2 < 2 powi (expo (x * 2) + 1)"
        by simp
      have "2 powi expo (x * 2) = 2 * (2::real) powi (expo (x * 2) - 1)"
        "2 powi (expo (x * 2) + 1) = 2 * (2::real) powi (expo (x * 2) - 1 + 1)"
        using power_int_add_1' [of "2::real" "expo (x * 2) - 1"]
          power_int_add_1' [of "2::real" "expo (x * 2)"] by simp_all
      with ih show ?thesis
        unfolding e by linarith
    next
      case notlt: False
      then have e: "expo x = 0"
        using "1.prems" False by (subst expo.simps) simp
      from notlt False show ?thesis
        unfolding e by simp
    qed
  qed
qed

lemma expo_mono:
  assumes "0 < x" and "x \<le> y"
  shows "expo x \<le> expo y"
proof (rule ccontr)
  assume "\<not> expo x \<le> expo y"
  then have "expo y + 1 \<le> expo x" by simp
  then have "(2::real) powi (expo y + 1) \<le> 2 powi expo x"
    by (intro power_int_increasing) simp_all
  also have "\<dots> \<le> x" using expo_bounds [OF assms(1)] by simp
  also have "\<dots> \<le> y" by (rule assms(2))
  also have "\<dots> < 2 powi (expo y + 1)"
    using expo_bounds [of y] assms by simp
  finally show False by simp
qed

lemma rne_range: "\<lfloor>x\<rfloor> \<le> rne x \<and> rne x \<le> \<lfloor>x\<rfloor> + 1"
  by (simp add: rne_def Let_def)

lemma rne_of_int: "rne (of_int n) = n"
  by (simp add: rne_def Let_def)

lemma rne_mono:
  assumes "x \<le> y"
  shows "rne x \<le> rne y"
proof (cases "\<lfloor>x\<rfloor> < \<lfloor>y\<rfloor>")
  case True
  then show ?thesis
    using rne_range [of x] rne_range [of y] by linarith
next
  case False
  with assms have eq: "\<lfloor>x\<rfloor> = \<lfloor>y\<rfloor>"
    using floor_mono [of x y] by linarith
  then have "x - of_int \<lfloor>x\<rfloor> \<le> y - of_int \<lfloor>y\<rfloor>"
    using assms by simp
  then show ?thesis
    unfolding rne_def Let_def eq by auto
qed


lemma pow2_split:
  "q \<le> e \<Longrightarrow> (2::real) powi e = of_int (2 ^ nat (e - q)) * 2 powi q"
proof -
  assume "q \<le> e"
  have "(2::real) powi e = 2 powi ((e - q) + q)" by simp
  also have "\<dots> = 2 powi (e - q) * 2 powi q"
    by (rule power_int_add) simp
  also have "(2::real) powi (e - q) = of_int (2 ^ nat (e - q))"
    using \<open>q \<le> e\<close> by (simp add: power_int_def)
  finally show ?thesis .
qed

lemma round_double_le_grid:
  assumes "x \<noteq> 0" and "x \<le> of_int k * 2 powi max (expo \<bar>x\<bar> - 52) (- 1074)"
  shows "round_double x \<le> of_int k * 2 powi max (expo \<bar>x\<bar> - 52) (- 1074)"
proof -
  let ?q = "max (expo \<bar>x\<bar> - 52) (- 1074)"
  have p: "0 < (2::real) powi ?q" by simp
  from assms(2) p have "x / 2 powi ?q \<le> of_int k"
    by (simp add: pos_divide_le_eq)
  then have "rne (x / 2 powi ?q) \<le> k"
    using rne_mono [of "x / 2 powi ?q" "of_int k"] by (simp add: rne_of_int)
  then have "of_int (rne (x / 2 powi ?q)) * 2 powi ?q \<le> of_int k * (2::real) powi ?q"
    using p by (simp del: zero_less_power_int)
  then show ?thesis
    using assms(1) by (simp add: round_double_def Let_def)
qed

lemma round_double_ge_grid:
  assumes "x \<noteq> 0" and "of_int k * 2 powi max (expo \<bar>x\<bar> - 52) (- 1074) \<le> x"
  shows "of_int k * 2 powi max (expo \<bar>x\<bar> - 52) (- 1074) \<le> round_double x"
proof -
  let ?q = "max (expo \<bar>x\<bar> - 52) (- 1074)"
  have p: "0 < (2::real) powi ?q" by simp
  from assms(2) p have "of_int k \<le> x / 2 powi ?q"
    by (simp add: pos_le_divide_eq)
  then have "k \<le> rne (x / 2 powi ?q)"
    using rne_mono [of "of_int k" "x / 2 powi ?q"] by (simp add: rne_of_int)
  then have "of_int k * (2::real) powi ?q \<le> of_int (rne (x / 2 powi ?q)) * 2 powi ?q"
    using p by (simp del: zero_less_power_int)
  then show ?thesis
    using assms(1) by (simp add: round_double_def Let_def)
qed

lemma round_double_nonneg: "0 \<le> x \<Longrightarrow> 0 \<le> round_double x"
  using round_double_ge_grid [of x 0] by (cases "x = 0") (simp_all add: round_double_def)

lemma round_double_nonpos: "x \<le> 0 \<Longrightarrow> round_double x \<le> 0"
  using round_double_le_grid [of x 0] by (cases "x = 0") (simp_all add: round_double_def)

lemma round_double_mono:
  assumes "0 \<le> x" and "x \<le> y"
  shows "round_double x \<le> round_double y"
proof (cases "x = 0")
  case True
  then show ?thesis
    using assms round_double_nonneg [of y] by (simp add: round_double_def)
next
  case False
  with assms have x: "0 < x" and y: "0 < y" by simp_all
  let ?qx = "max (expo \<bar>x\<bar> - 52) (- 1074)"
  let ?qy = "max (expo \<bar>y\<bar> - 52) (- 1074)"
  have e: "expo x \<le> expo y"
    using x assms(2) by (rule expo_mono)
  have ax: "\<bar>x\<bar> = x" and ay: "\<bar>y\<bar> = y" using x y by simp_all
  show ?thesis
  proof (cases "?qx = ?qy")
    case True
    have "x / 2 powi ?qy \<le> y / 2 powi ?qy"
      using assms(2) by (simp add: divide_right_mono)
    then have "rne (x / 2 powi ?qy) \<le> rne (y / 2 powi ?qy)"
      by (rule rne_mono)
    then have "of_int (rne (x / 2 powi ?qy)) * (2::real) powi ?qy
                 \<le> of_int (rne (y / 2 powi ?qy)) * 2 powi ?qy"
      by (intro mult_right_mono) simp_all
    then show ?thesis
      using x y True by (simp add: round_double_def Let_def)
  next
    case False
    with e have lt: "?qx < ?qy" and qy: "?qy = expo y - 52" and ex: "expo x < expo y"
      unfolding ax ay by linarith+
    let ?z = "(2::real) powi expo y"
    have "x < 2 powi (expo x + 1)" using expo_bounds [OF x] by simp
    also have "\<dots> \<le> ?z"
      using ex by (intro power_int_increasing) simp_all
    finally have xz: "x \<le> ?z" by simp
    have "?qx \<le> expo y" using lt qy by simp
    then have zx: "?z = of_int (2 ^ nat (expo y - ?qx)) * 2 powi ?qx"
      by (rule pow2_split)
    have "round_double x \<le> of_int (2 ^ nat (expo y - ?qx)) * 2 powi ?qx"
      using x xz zx by (intro round_double_le_grid) simp_all
    then have one: "round_double x \<le> ?z" using zx by simp
    have "?qy \<le> expo y" using qy by simp
    then have zy: "?z = of_int (2 ^ nat (expo y - ?qy)) * 2 powi ?qy"
      by (rule pow2_split)
    have "?z \<le> y" using expo_bounds [OF y] by simp
    then have "of_int (2 ^ nat (expo y - ?qy)) * 2 powi ?qy \<le> round_double y"
      using y zy by (intro round_double_ge_grid) simp_all
    then have two: "?z \<le> round_double y" using zy by simp
    from one two show ?thesis by simp
  qed
qed

lemma round_double_zero [simp]: "round_double 0 = 0"
  by (simp add: round_double_def)

lemma expo_less:
  assumes "0 < x" and "x < 2 powi m"
  shows "expo x < m"
proof (rule ccontr)
  assume "\<not> expo x < m"
  then have "(2::real) powi m \<le> 2 powi expo x"
    by (intro power_int_increasing) simp_all
  also have "\<dots> \<le> x" using expo_bounds [OF assms(1)] by simp
  finally show False using assms(2) by simp
qed

text \<open>A real on a binary grid no finer than its own is a double.\<close>

lemma round_double_exact:
  assumes "x = of_int k * 2 powi q'" and "max (expo \<bar>x\<bar> - 52) (- 1074) \<le> q'"
  shows "round_double x = x"
proof (cases "x = 0")
  case True
  then show ?thesis by simp
next
  case False
  let ?q = "max (expo \<bar>x\<bar> - 52) (- 1074)"
  have "(2::real) powi q' = of_int (2 ^ nat (q' - ?q)) * 2 powi ?q"
    using assms(2) by (rule pow2_split)
  then have "x = of_int (k * 2 ^ nat (q' - ?q)) * 2 powi ?q"
    using assms(1) by simp
  then have "x / 2 powi ?q = of_int (k * 2 ^ nat (q' - ?q))"
    by (simp add: field_simps)
  then have "of_int (rne (x / 2 powi ?q)) * 2 powi ?q = x"
    by (simp only: rne_of_int) (simp add: field_simps)
  then show ?thesis
    using False by (simp add: round_double_def Let_def)
qed

lemma round_double_of_int:
  assumes "\<bar>n\<bar> < 2 ^ 53"
  shows "round_double (of_int n) = of_int n"
proof (cases "n = 0")
  case True
  then show ?thesis by simp
next
  case False
  then have "0 < \<bar>real_of_int n\<bar>" by simp
  moreover have "\<bar>real_of_int n\<bar> < 2 powi 53"
  proof -
    have "real_of_int \<bar>n\<bar> < real_of_int (2 ^ 53)"
      using assms by (simp only: of_int_less_iff)
    then show ?thesis by (simp add: power_int_def)
  qed
  ultimately have "expo \<bar>real_of_int n\<bar> < 53"
    by (rule expo_less)
  then have "max (expo \<bar>real_of_int n\<bar> - 52) (- 1074) \<le> 0" by simp
  moreover have "real_of_int n = of_int n * 2 powi 0" by simp
  ultimately show ?thesis by (rule round_double_exact [rotated])
qed

lemma round_double_numeral [simp]:
  "(numeral k :: int) < 2 ^ 53 \<Longrightarrow> round_double (numeral k) = numeral k"
  using round_double_of_int [of "numeral k"] by simp

lemma round_double_one [simp]: "round_double 1 = 1"
  using round_double_of_int [of 1] by simp

lemma CV_THRESHOLD_value: "CV_THRESHOLD = 3602879701896397 / 18014398509481984"
  by code_simp

lemma AMOUNT_TOLERANCE_value: "AMOUNT_TOLERANCE = 3602879701896397 / 18014398509481984"
  by code_simp


lemma PERIODICITY_TOLERANCE_value: "PERIODICITY_TOLERANCE = 1 / 4"
  by code_simp

lemma RAPID_OUTFLOW_RATIO_value: "RAPID_OUTFLOW_RATIO = 1 / 2"
  by code_simp



text \<open>
  Subtracting a positive integer from a positive double below \<open>2 ^ 53\<close> and flooring
  at zero gives the exact result: the difference lies on the grid of the minuend
  whenever it is positive.
\<close>

lemma score_subtraction_exact:
  fixes reduction :: int
  assumes double: "round_double old = old"
    and pos: "0 < old" and below: "old < 2 ^ 53" and red: "0 < reduction"
  shows "max 0 (dsub old (of_int reduction)) = max 0 (old - of_int reduction)"
proof (cases "old - of_int reduction \<le> 0")
  case True
  then have "round_double (old - of_int reduction) \<le> 0"
    by (rule round_double_nonpos)
  with True show ?thesis by (simp add: dsub_def)
next
  case False
  let ?x = "old - of_int reduction"
  let ?q = "max (expo \<bar>old\<bar> - 52) (- 1074)"
  from False have x: "0 < ?x" by simp
  from red have "?x \<le> old" by simp
  with x have "expo ?x \<le> expo old" by (rule expo_mono)
  then have grid: "max (expo \<bar>?x\<bar> - 52) (- 1074) \<le> ?q"
    using x pos by simp
  have "old < 2 powi 53" using below by simp
  with pos have "expo old < 53" by (rule expo_less)
  then have q: "?q \<le> 0" using pos by simp
  from pos double have old: "old = of_int (rne (old / 2 powi ?q)) * 2 powi ?q"
    by (simp add: round_double_def Let_def)
  have "(2::real) powi 0 = of_int (2 ^ nat (0 - ?q)) * 2 powi ?q"
    using q by (rule pow2_split)
  then have "of_int reduction = of_int (reduction * 2 ^ nat (0 - ?q)) * (2::real) powi ?q"
    by simp
  then have "?x = of_int (rne (old / 2 powi ?q) - reduction * 2 ^ nat (0 - ?q)) * 2 powi ?q"
    using old by (simp add: algebra_simps)
  then have "round_double ?x = ?x"
    using grid by (rule round_double_exact)
  then show ?thesis by (simp add: dsub_def)
qed

section \<open>Properties of the relationship intelligence engine\<close>

subsection \<open>The sample batch, evaluated\<close>

lemma qualifyingPairs_monthly: "qualifyingPairs monthly_txs = [monthly_pair]"
  by (simp add: qualifyingPairs_def pair_stats_def build_pairMap_def monthly_txs_def mk_tx_def
        add_to_pair_def pairKey_def day_ms_def sort_and_span_def qualifies_def monthly_pair_def
        MIN_RECURRING_TX_COUNT_def MIN_RECURRING_SPAN_MS_def)

lemma recurringReduction_monthly: "recurringReduction monthly_pair = 12"
  by code_simp

lemma durationReduction_monthly: "durationReduction monthly_pair = 10"
  by (simp add: durationReduction_def monthly_pair_def DURATION_TIER_1_MS_def
        DURATION_TIER_2_MS_def)

lemma consistencyReduction_monthly: "consistencyReduction monthly_pair = 15"
  by (simp add: consistencyReduction_def monthly_pair_def CV_THRESHOLD_value
        dadd_def dsub_def dmul_def ddiv_def dsqrt_def dsquare_def)

lemma periodicityReduction_monthly: "periodicityReduction monthly_pair = 20"
  by code_simp

lemma accountReductions_monthly:
  "accountReductions monthly_txs = [''X'' \<mapsto> monthly_reduction, ''Y'' \<mapsto> monthly_reduction]"
  by (simp add: accountReductions_def qualifyingPairs_monthly add_pair_reductions_def
        apply_best_def ensureReduction_def recurringReduction_monthly durationReduction_monthly
        consistencyReduction_monthly periodicityReduction_monthly monthly_reduction_def)
    (simp add: monthly_pair_def)

lemma totalReduction_monthly: "totalReduction monthly_reduction = 50"
  by (simp add: totalReduction_def monthly_reduction_def MAX_TOTAL_REDUCTION_def)

lemma adjust_monthly:
  "0 < score \<Longrightarrow>
   adjustScoresUsingRelationshipIntelligence plain_num [mk_account ''X'' score n] monthly_txs {}
     = [(mk_account ''X'' score n)
          \<lparr>suspicion_score := max 0 (score - 50),
           triggered_algorithms := [''relationship_intelligence''],
           explanation := ''upstream'' @ note_text plain_num monthly_reduction score (max 0 (score - 50)),
           is_suspicious := max 0 (score - 50) > 0\<rparr>]"
  by (simp add: adjustScoresUsingRelationshipIntelligence_def adjust_account_def
        accountReductions_monthly totalReduction_monthly mk_account_def Let_def)

subsection \<open>The loop over the accounts\<close>

lemma length_adjustScores:
  "length (adjustScoresUsingRelationshipIntelligence num_str accounts transactions cycleMembers)
     = length accounts"
  by (simp add: adjustScoresUsingRelationshipIntelligence_def)

lemma nth_adjustScores:
  "i < length accounts \<Longrightarrow>
   adjustScoresUsingRelationshipIntelligence num_str accounts transactions cycleMembers ! i
     = adjust_account num_str cycleMembers (accountReductions transactions) (accounts ! i)"
  by (simp add: adjustScoresUsingRelationshipIntelligence_def)


text \<open>An account is either returned as it is, or all four fields are rewritten.\<close>

lemma adjust_account_cases:
  "adjust_account num_str cycleMembers reductions a = a
   \<or> (\<exists>r. reductions (account_id a) = Some r \<and> 0 < totalReduction r
          \<and> account_id a \<notin> cycleMembers \<and> 0 < suspicion_score a
          \<and> adjust_account num_str cycleMembers reductions a =
              a\<lparr>suspicion_score := max 0 (suspicion_score a - of_int (totalReduction r)),
                triggered_algorithms := triggered_algorithms a @ [''relationship_intelligence''],
                explanation := explanation a @ note_text num_str r (suspicion_score a)
                                 (max 0 (suspicion_score a - of_int (totalReduction r))),
                is_suspicious := max 0 (suspicion_score a - of_int (totalReduction r)) > 0\<rparr>)"
  by (simp add: adjust_account_def Let_def split: option.splits)

lemma adjust_account_score_le:
  "suspicion_score (adjust_account num_str cycleMembers reductions a) \<le> suspicion_score a"
  using adjust_account_cases [of num_str cycleMembers reductions a] by auto

lemma adjust_account_score_nonneg:
  "0 \<le> suspicion_score a \<Longrightarrow>
   0 \<le> suspicion_score (adjust_account num_str cycleMembers reductions a)"
  using adjust_account_cases [of num_str cycleMembers reductions a] by auto


lemma adjust_account_cycle:
  "account_id a \<in> cycleMembers \<Longrightarrow> adjust_account num_str cycleMembers reductions a = a"
  by (simp add: adjust_account_def)


subsection \<open>Bounds on the sub-scores and on the per-account maxima\<close>

text \<open>The recurring score in doubles is the rounded exact line, clamped.\<close>

lemma recurring_values:
  "min 25 (round (dadd 10 (dmul (ddiv (dsub (real (3::nat)) 3) 7) 15))) = 10"
  "min 25 (round (dadd 10 (dmul (ddiv (dsub (real (4::nat)) 3) 7) 15))) = 12"
  "min 25 (round (dadd 10 (dmul (ddiv (dsub (real (5::nat)) 3) 7) 15))) = 14"
  "min 25 (round (dadd 10 (dmul (ddiv (dsub (real (6::nat)) 3) 7) 15))) = 16"
  "min 25 (round (dadd 10 (dmul (ddiv (dsub (real (7::nat)) 3) 7) 15))) = 19"
  "min 25 (round (dadd 10 (dmul (ddiv (dsub (real (8::nat)) 3) 7) 15))) = 21"
  "min 25 (round (dadd 10 (dmul (ddiv (dsub (real (9::nat)) 3) 7) 15))) = 23"
  by code_simp+

lemma line_values:
  "min 25 (round (10 + ((real (3::nat) - 3) / 7) * 15)) = 10"
  "min 25 (round (10 + ((real (4::nat) - 3) / 7) * 15)) = 12"
  "min 25 (round (10 + ((real (5::nat) - 3) / 7) * 15)) = 14"
  "min 25 (round (10 + ((real (6::nat) - 3) / 7) * 15)) = 16"
  "min 25 (round (10 + ((real (7::nat) - 3) / 7) * 15)) = 19"
  "min 25 (round (10 + ((real (8::nat) - 3) / 7) * 15)) = 21"
  "min 25 (round (10 + ((real (9::nat) - 3) / 7) * 15)) = 23"
  by (simp_all add: round_def)

lemma recurring_double_25:
  assumes "10 \<le> n"
  shows "min 25 (round (dadd 10 (dmul (ddiv (dsub (real n) 3) 7) 15))) = 25"
proof -
  have "round_double 7 \<le> round_double (real n - 3)"
    using assms by (intro round_double_mono) simp_all
  then have a: "7 \<le> dsub (real n) 3"
    by (simp add: dsub_def)
  then have "round_double 1 \<le> round_double (dsub (real n) 3 / 7)"
    by (intro round_double_mono) simp_all
  then have b: "1 \<le> ddiv (dsub (real n) 3) 7"
    by (simp add: ddiv_def)
  then have "round_double 15 \<le> round_double (ddiv (dsub (real n) 3) 7 * 15)"
    by (intro round_double_mono) simp_all
  then have c: "15 \<le> dmul (ddiv (dsub (real n) 3) 7) 15"
    by (simp add: dmul_def)
  then have "round_double 25 \<le> round_double (10 + dmul (ddiv (dsub (real n) 3) 7) 15)"
    by (intro round_double_mono) simp_all
  then have "25 \<le> dadd 10 (dmul (ddiv (dsub (real n) 3) 7) 15)"
    by (simp add: dadd_def)
  then have "round (25::real) \<le> round (dadd 10 (dmul (ddiv (dsub (real n) 3) 7) 15))"
    by (rule round_mono)
  then show ?thesis by simp
qed

lemma recurring_line_25:
  assumes "10 \<le> n"
  shows "min 25 (round (10 + ((real n - 3) / 7) * 15)) = 25"
proof -
  have "(25::real) \<le> 10 + ((real n - 3) / 7) * 15"
    using assms by simp
  then have "round (25::real) \<le> round (10 + ((real n - 3) / 7) * 15)"
    by (rule round_mono)
  then show ?thesis by simp
qed

lemma recurringReduction_line:
  assumes "3 \<le> length (amounts pair)"
  shows "recurringReduction pair
           = min 25 (round (10 + ((real (length (amounts pair)) - 3) / 7) * 15))"
proof (cases "10 \<le> length (amounts pair)")
  case True
  then show ?thesis
    unfolding recurringReduction_def
    by (simp only: recurring_double_25 recurring_line_25)
next
  case False
  with assms consider "length (amounts pair) = 3" | "length (amounts pair) = 4"
    | "length (amounts pair) = 5" | "length (amounts pair) = 6" | "length (amounts pair) = 7"
    | "length (amounts pair) = 8" | "length (amounts pair) = 9"
    by linarith
  then show ?thesis
    unfolding recurringReduction_def
    by cases (simp_all only: recurring_values line_values)
qed


lemma recurringReduction_eq_25:
  assumes "10 \<le> length (amounts pair)"
  shows "recurringReduction pair = 25"
  unfolding recurringReduction_def using assms by (rule recurring_double_25)

lemma recurringReduction_eq_10:
  "length (amounts pair) = 3 \<Longrightarrow> recurringReduction pair = 10"
  by (simp add: recurringReduction_line)

















lemma clamp_round_close: "\<bar>real_of_int (min 25 (round x)) - min 25 x\<bar> \<le> 1 / 2" for x :: real
proof (cases "25 \<le> x")
  case True
  then have "round (25::real) \<le> round x" by (rule round_mono)
  with True show ?thesis by simp
next
  case False
  then have "x \<le> 25" by simp
  then have "round x \<le> round (25::real)" by (rule round_mono)
  then have a: "min 25 (round x) = round x" by simp
  have b: "min 25 x = x" using False by simp
  show ?thesis unfolding a b by (rule of_int_round_abs_le)
qed

lemma recurringReduction_gt_10:
  assumes "4 \<le> length (amounts pair)"
  shows "12 \<le> recurringReduction pair"
proof -
  have "(85 / 7 :: real) \<le> 10 + ((real (length (amounts pair)) - 3) / 7) * 15"
    using assms by simp
  then have "round (85 / 7 :: real) \<le> round (10 + ((real (length (amounts pair)) - 3) / 7) * 15)"
    by (rule round_mono)
  moreover have "round (85 / 7 :: real) = 12" by (simp add: round_def)
  ultimately show ?thesis
    using assms by (simp add: recurringReduction_line)
qed

lemma recurringReduction_lt_25:
  assumes "3 \<le> length (amounts pair)" and "length (amounts pair) \<le> 9"
  shows "recurringReduction pair \<le> 23"
proof -
  have "10 + ((real (length (amounts pair)) - 3) / 7) * 15 \<le> (160 / 7 :: real)"
    using assms by simp
  then have "round (10 + ((real (length (amounts pair)) - 3) / 7) * 15) \<le> round (160 / 7 :: real)"
    by (rule round_mono)
  moreover have "round (160 / 7 :: real) = 23" by (simp add: round_def)
  ultimately show ?thesis
    using assms by (simp add: recurringReduction_line)
qed

subsection \<open>Monotonic score\<close>

text \<open>
  Claim C4. After one run of the relationship intelligence engine the score of every
  account is at most its score before the run, and it is not negative when the
  score before the run was not negative (the data model makes \<open>suspicion_score\<close> a
  non-negative number).
\<close>

theorem relationship_score_monotone:
  assumes "i < length accounts"
  shows "suspicion_score
           (adjustScoresUsingRelationshipIntelligence num_str accounts transactions cycleMembers ! i)
           \<le> suspicion_score (accounts ! i)
         \<and> (0 \<le> suspicion_score (accounts ! i) \<longrightarrow>
              0 \<le> suspicion_score
                    (adjustScoresUsingRelationshipIntelligence num_str accounts transactions
                       cycleMembers ! i))"
  using assms
  by (simp add: nth_adjustScores adjust_account_score_le adjust_account_score_nonneg)

theorem relationship_score_monotone_witness:
  "(0::nat) < length [mk_account ''X'' 40 4]
   \<and> 0 \<le> suspicion_score ([mk_account ''X'' 40 4] ! 0)
   \<and> suspicion_score
        (adjustScoresUsingRelationshipIntelligence plain_num [mk_account ''X'' 40 4] monthly_txs {} ! 0)
        = 0
   \<and> suspicion_score
        (adjustScoresUsingRelationshipIntelligence plain_num [mk_account ''X'' 40 4] monthly_txs {} ! 0)
        \<le> suspicion_score ([mk_account ''X'' 40 4] ! 0)
   \<and> 0 \<le> suspicion_score
        (adjustScoresUsingRelationshipIntelligence plain_num [mk_account ''X'' 40 4] monthly_txs {} ! 0)"
  using relationship_score_monotone [of 0 "[mk_account ''X'' 40 4]" plain_num monthly_txs "{}"]
  by (simp add: adjust_monthly)

subsection \<open>The cap on the reduction\<close>



subsection \<open>Cycle immunity\<close>

text \<open>
  Claim C6. An account whose id is in \<open>cycleMembers\<close> is returned by the relationship
  intelligence engine exactly as it was passed in, whatever pairs it takes part in.
\<close>

theorem cycle_member_unchanged:
  assumes "i < length accounts"
    and "account_id (accounts ! i) \<in> cycleMembers"
  shows "adjustScoresUsingRelationshipIntelligence num_str accounts transactions cycleMembers ! i
           = accounts ! i"
  using assms by (simp add: nth_adjustScores adjust_account_cycle)

theorem cycle_member_unchanged_witness:
  "(0::nat) < length [mk_account ''X'' 40 4]
   \<and> account_id ([mk_account ''X'' 40 4] ! 0) \<in> {''X''}
   \<and> accountReductions monthly_txs ''X'' = Some monthly_reduction
   \<and> adjustScoresUsingRelationshipIntelligence plain_num [mk_account ''X'' 40 4] monthly_txs {''X''} ! 0
       = [mk_account ''X'' 40 4] ! 0"
  using cycle_member_unchanged [of 0 "[mk_account ''X'' 40 4]" "{''X''}" plain_num monthly_txs]
  by (simp add: accountReductions_monthly) (simp add: mk_account_def)

subsection \<open>The recurring-pair score\<close>

text \<open>
  Claim C7 as stated fails. The recurring-pair score of a qualifying pair is not the
  value of the line
  \<open>10 + ((n - 3) / 7) * 15\<close> itself: the sample pair has four transactions, the
  line gives \<open>85 / 7\<close>, the code gives 12.
\<close>

theorem recurring_score_off_line:
  "qualifies monthly_pair
   \<and> length (amounts monthly_pair) = 4
   \<and> recurringReduction monthly_pair = 12
   \<and> real_of_int (recurringReduction monthly_pair)
       \<noteq> min 25 (10 + ((real (length (amounts monthly_pair)) - 3) / 7) * 15)"
  by (simp add: recurringReduction_monthly)
     (simp add: monthly_pair_def qualifies_def MIN_RECURRING_TX_COUNT_def
        MIN_RECURRING_SPAN_MS_def)

text \<open>
  Claim C7, amended. For a qualifying pair with \<open>n\<close> transactions the recurring-pair
  score is the line \<open>10 + ((n - 3) / 7) * 15\<close> rounded to the nearest integer and
  clamped at 25. It is within one half of the clamped line, it is 10 exactly for
  three transactions and 25 exactly for ten or more.
\<close>

theorem recurring_score_rounded:
  assumes "qualifies pair"
  shows "recurringReduction pair
           = min 25 (round (10 + ((real (length (amounts pair)) - 3) / 7) * 15))
         \<and> \<bar>real_of_int (recurringReduction pair)
              - min 25 (10 + ((real (length (amounts pair)) - 3) / 7) * 15)\<bar> \<le> 1 / 2
         \<and> (recurringReduction pair = 10) = (length (amounts pair) = 3)
         \<and> (recurringReduction pair = 25) = (10 \<le> length (amounts pair))"
proof -
  have n: "3 \<le> length (amounts pair)"
    using assms by (simp add: qualifies_def MIN_RECURRING_TX_COUNT_def)
  have "(recurringReduction pair = 10) = (length (amounts pair) = 3)"
  proof (cases "length (amounts pair) = 3")
    case True
    then show ?thesis by (simp add: recurringReduction_eq_10)
  next
    case False
    with n have "4 \<le> length (amounts pair)" by simp
    then have "12 \<le> recurringReduction pair" by (rule recurringReduction_gt_10)
    with False show ?thesis by simp
  qed
  moreover have "(recurringReduction pair = 25) = (10 \<le> length (amounts pair))"
  proof (cases "10 \<le> length (amounts pair)")
    case True
    then show ?thesis by (simp add: recurringReduction_eq_25)
  next
    case False
    then have "length (amounts pair) \<le> 9" by simp
    with n have "recurringReduction pair \<le> 23" by (rule recurringReduction_lt_25)
    with False show ?thesis by simp
  qed
  moreover have "\<bar>real_of_int (recurringReduction pair)
              - min 25 (10 + ((real (length (amounts pair)) - 3) / 7) * 15)\<bar> \<le> 1 / 2"
    unfolding recurringReduction_line [OF n] by (rule clamp_round_close)
  ultimately show ?thesis
    using recurringReduction_line [OF n] by simp
qed

theorem recurring_score_rounded_witness:
  "qualifies monthly_pair
   \<and> recurringReduction monthly_pair = 12
   \<and> \<bar>real_of_int (recurringReduction monthly_pair) - 85 / 7\<bar> \<le> 1 / 2
   \<and> recurringReduction monthly_pair \<noteq> 10 \<and> recurringReduction monthly_pair \<noteq> 25"
proof -
  have q: "qualifies monthly_pair"
    by (simp add: monthly_pair_def qualifies_def MIN_RECURRING_TX_COUNT_def
          MIN_RECURRING_SPAN_MS_def)
  have n: "length (amounts monthly_pair) = 4"
    by (simp add: monthly_pair_def)
  show ?thesis
    using q recurring_score_rounded [OF q] unfolding n
    by (simp add: round_def)
qed

subsection \<open>Accounts of qualifying pairs\<close>






subsection \<open>Rounding in the consistency sub-score\<close>

text \<open>
  With the amounts 86, 114, 86, 114 the coefficient of variation is the double
  nearest to 0.14; the exact line \<open>15 * (1 - 0.14 / 0.2)\<close> is 4.5, the value computed
  in doubles lies just below it, and the sub-score is 4.
\<close>

lemma sqrt_196: "sqrt 196 = 14"
  using real_sqrt_abs [of 14] by simp

lemma consistencyReduction_rounded_cv:
  "consistencyReduction
     \<lparr>sender = ''X'', receiver = ''Y'', amounts = [86, 114, 86, 114], timestamps = [],
      spanMs = 0\<rparr> = 4"
proof -
  have a: "round (round_double (15 * round_double (1 - round_double (round_double (7 / 50) / CV_THRESHOLD)))) = 4"
    by code_simp
  have c: "round_double (7 / 50) < CV_THRESHOLD" by code_simp
  have n: "round_double (- 14) = - 14"
    using round_double_of_int [of "- 14"] by simp
  show ?thesis
    using a c
    by (simp add: consistencyReduction_def dadd_def dsub_def dmul_def ddiv_def dsqrt_def
          dsquare_def sqrt_196 n)
qed

section \<open>Properties of the fan-in engine\<close>

subsection \<open>Shell chain involvement\<close>










text \<open>
  Two inputs on which rounding decides the shell test. The double written
  \<^verbatim>\<open>40.08\<close> is the double nearest to 40 percent of 100.2, and the threshold computed
  from the double written \<^verbatim>\<open>100.2\<close> is the next double above it: the check is false.
  With 43 received the threshold is the double written \<^verbatim>\<open>17.2\<close>: the check is true.
\<close>

lemma shell_threshold_rounds_up:
  "round_double 40.08 < shell_threshold (round_double 100.2)
   \<and> round_double 40.08 = round_double (0.4 * 100.2)
   \<and> \<not> checkShellChainInvolvement ''R'' (round_double 100.2)
         [''R'' \<mapsto> [(''N'', [mk_tx ''R'' ''N'' (round_double 40.08) 0])], ''N'' \<mapsto> [(''M'', [])]]
         scenario_accounts
   \<and> checkShellChainInvolvement ''R'' 43
         [''R'' \<mapsto> [(''N'', [mk_tx ''R'' ''N'' (round_double 17.2) 0])], ''N'' \<mapsto> [(''M'', [])]]
         scenario_accounts"
  by code_simp

text \<open>
  Three receipts of the double written \<^verbatim>\<open>100.4\<close> add up to the double above 301.2;
  half of it is above the double written \<^verbatim>\<open>150.6\<close>, and the rapid-outflow test
  fails.
\<close>

lemma rapid_outflow_rounded_sum:
  "received_in_window
     [mk_tx ''A'' ''R'' (round_double 100.4) 0, mk_tx ''B'' ''R'' (round_double 100.4) 1,
      mk_tx ''C'' ''R'' (round_double 100.4) 2] [''A'', ''B'', ''C''] 0 2
     = 1324691609144525 / 4398046511104
   \<and> round_double 150.6 < dmul (1324691609144525 / 4398046511104) RAPID_OUTFLOW_RATIO
   \<and> \<not> checkRapidLayeredOutflow ''R''
         \<lparr>accountId = ''R'', senders = [''A'', ''B'', ''C''],
          totalReceived = 1324691609144525 / 4398046511104, windowStart = 0, windowEnd = 2\<rparr>
         [mk_tx ''R'' ''Z'' (round_double 150.6) 3]"
  by code_simp




subsection \<open>The account index\<close>

lemma index_fold_Some:
  "fold (\<lambda>i m. m(account_id (accounts ! i) \<mapsto> i)) [0..<n] Map.empty ident = Some i
   \<Longrightarrow> i < n \<and> account_id (accounts ! i) = ident"
  by (induction n) (auto split: if_splits)

lemma index_accounts_Some:
  "index_accounts accounts ident = Some i \<Longrightarrow> i < length accounts \<and> account_id (accounts ! i) = ident"
  unfolding index_accounts_def by (rule index_fold_Some)

lemma index_fold_dom:
  "dom (fold (\<lambda>i m. m(account_id (accounts ! i) \<mapsto> i)) [0..<n] Map.empty)
     = (\<lambda>i. account_id (accounts ! i)) ` {0..<n}"
proof (induction n)
  case 0
  then show ?case by simp
next
  case (Suc n)
  let ?m = "fold (\<lambda>i m. m(account_id (accounts ! i) \<mapsto> i)) [0..<n] Map.empty"
  have "fold (\<lambda>i m. m(account_id (accounts ! i) \<mapsto> i)) [0..<Suc n] Map.empty
          = ?m(account_id (accounts ! n) \<mapsto> n)"
    by simp
  then have "dom (fold (\<lambda>i m. m(account_id (accounts ! i) \<mapsto> i)) [0..<Suc n] Map.empty)
          = insert (account_id (accounts ! n)) (dom ?m)"
    by (simp only: dom_fun_upd) simp
  also have "\<dots> = (\<lambda>i. account_id (accounts ! i)) ` {0..<Suc n}"
    unfolding Suc.IH by (simp only: atLeast0_lessThan_Suc image_insert)
  finally show ?case .
qed

lemma index_accounts_None:
  "index_accounts accounts ident = None \<longleftrightarrow> ident \<notin> account_id ` set accounts"
proof -
  have "set accounts = (\<lambda>i. accounts ! i) ` {0..<length accounts}"
    by (metis map_nth set_map set_upt)
  then have "account_id ` set accounts = (\<lambda>i. account_id (accounts ! i)) ` {0..<length accounts}"
    by (simp only: image_image)
  then have "dom (index_accounts accounts) = account_id ` set accounts"
    unfolding index_accounts_def index_fold_dom by simp
  then show ?thesis by (metis domIff)
qed

subsection \<open>One candidate\<close>

lemma length_corroborate:
  "length (corroborate transactions graph accountMap cycleNodes shellNodes fanOutNodes c accounts)
     = length accounts"
  by (simp add: corroborate_def split: option.splits)

lemma corroborate_missing:
  "accountMap (accountId c) = None \<Longrightarrow>
   corroborate transactions graph accountMap cycleNodes shellNodes fanOutNodes c accounts = accounts"
  by (simp add: corroborate_def)

lemma corroborate_other:
  "accountMap (accountId c) \<noteq> Some i \<Longrightarrow>
   corroborate transactions graph accountMap cycleNodes shellNodes fanOutNodes c accounts ! i
     = accounts ! i"
  by (auto simp: corroborate_def split: option.splits)

lemma corroborate_at:
  "accountMap (accountId c) = Some i \<Longrightarrow> i < length accounts \<Longrightarrow>
   corroborate transactions graph accountMap cycleNodes shellNodes fanOutNodes c accounts ! i
     = classify (triggered_checks transactions graph (account_lookup accountMap accounts)
                   cycleNodes shellNodes fanOutNodes c) (accounts ! i)"
  by (simp add: corroborate_def)

lemma triggered_checks_names:
  "set (triggered_checks transactions graph accountMap cycleNodes shellNodes fanOutNodes c)
     \<subseteq> check_names"
  by (auto simp: triggered_checks_def check_names_def)

lemma classify_fields:
  "corroboration_checks (classify checks a) = Some checks"
  "fan_in_classification (classify checks a)
     = Some (if checks = [] then aggregation_candidate else confirmed_money_laundering)"
  by (simp_all add: classify_def Let_def)

lemma classified_corroborate:
  assumes "i < length accounts"
    and "classified (accounts ! i) \<or> accountMap (accountId c) = Some i"
  shows "classified
           (corroborate transactions graph accountMap cycleNodes shellNodes fanOutNodes c accounts ! i)"
proof (cases "accountMap (accountId c) = Some i")
  case True
  then show ?thesis
    using assms(1) triggered_checks_names
    by (auto simp: corroborate_at classified_def classify_fields)
next
  case False
  with assms(2) show ?thesis
    by (simp add: corroborate_other)
qed

subsection \<open>The loop over the candidates\<close>


lemma fold_corroborate_other:
  "\<forall>c \<in> set cs. accountMap (accountId c) \<noteq> Some i \<Longrightarrow>
   fold (corroborate transactions graph accountMap cycleNodes shellNodes fanOutNodes) cs accounts ! i
     = accounts ! i"
  by (induction cs arbitrary: accounts) (simp_all add: corroborate_other)

lemma fold_corroborate_classified:
  assumes "i < length accounts"
    and "classified (accounts ! i) \<or> (\<exists>c \<in> set cs. accountMap (accountId c) = Some i)"
  shows "classified
           (fold (corroborate transactions graph accountMap cycleNodes shellNodes fanOutNodes)
              cs accounts ! i)"
  using assms
proof (induction cs arbitrary: accounts)
  case Nil
  then show ?case by simp
next
  case (Cons c cs)
  let ?s = "corroborate transactions graph accountMap cycleNodes shellNodes fanOutNodes c accounts"
  have len: "i < length ?s"
    using Cons.prems(1) by (simp add: length_corroborate)
  have "classified (?s ! i) \<or> (\<exists>c \<in> set cs. accountMap (accountId c) = Some i)"
    using Cons.prems classified_corroborate [of i accounts accountMap c] by auto
  with len show ?case
    using Cons.IH [of ?s] by simp
qed

lemma fold_corroborate_filter:
  "fold (corroborate transactions graph accountMap cycleNodes shellNodes fanOutNodes) cs accounts
     = fold (corroborate transactions graph accountMap cycleNodes shellNodes fanOutNodes)
         (filter (\<lambda>c. accountMap (accountId c) \<noteq> None) cs) accounts"
  by (induction cs arbitrary: accounts) (simp_all add: corroborate_missing)

subsection \<open>The sample data, evaluated\<close>

lemma candidates_fan_txs:
  "identifyAggregationCandidates fan_txs =
     [\<lparr>accountId = ''R'', senders = [''A'', ''B'', ''C''], totalReceived = 300,
       windowStart = 0, windowEnd = 36000000\<rparr>]"
  by code_simp

lemma candidates_scenario_txs:
  "identifyAggregationCandidates scenario_txs =
     [\<lparr>accountId = ''R'', senders = [''A'', ''B'', ''C''], totalReceived = 300,
       windowStart = 0, windowEnd = 36000000\<rparr>]"
  by code_simp

lemma candidates_two_receiver_txs:
  "identifyAggregationCandidates two_receiver_txs =
     [\<lparr>accountId = ''R'', senders = [''A'', ''B'', ''C''], totalReceived = 300,
       windowStart = 0, windowEnd = 36000000\<rparr>,
      \<lparr>accountId = ''Q'', senders = [''A'', ''B'', ''C''], totalReceived = 150,
       windowStart = 0, windowEnd = 7200000\<rparr>]"
  by code_simp

lemma validate_scenario:
  "validateFanInTwoPhase [mk_account ''R'' 10 4, mk_account ''N'' 0 1] scenario_txs scenario_graph [] [] []
     = [(mk_account ''R'' 10 4)
          \<lparr>explanation := ''upstream. Fan-In Validation: CONFIRMED MONEY LAUNDERING. Corroboration: shell_chain_involvement, rapid_layered_outflow'',
           triggered_algorithms := [''Two-Phase Fan-In Validation''],
           fan_in_classification := Some confirmed_money_laundering,
           corroboration_checks := Some [''shell_chain_involvement'', ''rapid_layered_outflow'']\<rparr>,
        mk_account ''N'' 0 1]"
  by code_simp

lemma validate_fan:
  "validateFanInTwoPhase [mk_account ''R'' 10 4] fan_txs Map.empty [] [] []
     = [(mk_account ''R'' 10 4)
          \<lparr>explanation := ''upstream. Fan-In Validation: AGGREGATION CANDIDATE (unconfirmed). No corroboration evidence found'',
           triggered_algorithms := [''Two-Phase Fan-In Validation''],
           fan_in_classification := Some aggregation_candidate,
           corroboration_checks := Some []\<rparr>]"
  by code_simp

lemma validate_two_receiver:
  "validateFanInTwoPhase [mk_account ''Q'' 10 4] two_receiver_txs Map.empty [] [] []
     = [(mk_account ''Q'' 10 4)
          \<lparr>explanation := ''upstream. Fan-In Validation: AGGREGATION CANDIDATE (unconfirmed). No corroboration evidence found'',
           triggered_algorithms := [''Two-Phase Fan-In Validation''],
           fan_in_classification := Some aggregation_candidate,
           corroboration_checks := Some []\<rparr>]"
  by code_simp

lemma index_scenario:
  "index_accounts [mk_account ''R'' 10 4, mk_account ''N'' 0 1] = [''R'' \<mapsto> 0, ''N'' \<mapsto> 1]"
  by (simp add: index_accounts_def mk_account_def upt_rec)

subsection \<open>Classification and corroboration checks\<close>

text \<open>
  Claim C1. The engine classifies the account at position \<open>i\<close> when some candidate is
  looked up to it. Such an account ends with a list of checks drawn from the four
  fixed names, with \<open>confirmed_money_laundering\<close> exactly when the list is not empty
  and \<open>aggregation_candidate\<close> exactly when it is empty. Every other account is
  returned as it was.
\<close>

theorem fan_in_classification_iff_checks:
  assumes "i < length accounts"
  shows "if (\<exists>c \<in> set (identifyAggregationCandidates transactions).
               index_accounts accounts (accountId c) = Some i)
         then (\<exists>checks.
                 corroboration_checks
                   (validateFanInTwoPhase accounts transactions graph cycles shellChains fanOutMap ! i)
                   = Some checks
                 \<and> set checks \<subseteq> {''shell_chain_involvement'', ''cycle_ring_participation'',
                                   ''rapid_layered_outflow'', ''role_conflict''}
                 \<and> (fan_in_classification
                       (validateFanInTwoPhase accounts transactions graph cycles shellChains
                          fanOutMap ! i) = Some confirmed_money_laundering) = (checks \<noteq> [])
                 \<and> (fan_in_classification
                       (validateFanInTwoPhase accounts transactions graph cycles shellChains
                          fanOutMap ! i) = Some aggregation_candidate) = (checks = []))
         else validateFanInTwoPhase accounts transactions graph cycles shellChains fanOutMap ! i
                = accounts ! i"
proof (cases "\<exists>c \<in> set (identifyAggregationCandidates transactions).
               index_accounts accounts (accountId c) = Some i")
  case True
  then have "classified
      (validateFanInTwoPhase accounts transactions graph cycles shellChains fanOutMap ! i)"
    unfolding validateFanInTwoPhase_def Let_def
    using assms by (intro fold_corroborate_classified) simp_all
  then obtain checks where
    "corroboration_checks
       (validateFanInTwoPhase accounts transactions graph cycles shellChains fanOutMap ! i)
       = Some checks"
    "set checks \<subseteq> check_names"
    "fan_in_classification
       (validateFanInTwoPhase accounts transactions graph cycles shellChains fanOutMap ! i)
       = Some (if checks = [] then aggregation_candidate else confirmed_money_laundering)"
    unfolding classified_def by blast
  then have "corroboration_checks
       (validateFanInTwoPhase accounts transactions graph cycles shellChains fanOutMap ! i)
       = Some checks
     \<and> set checks \<subseteq> {''shell_chain_involvement'', ''cycle_ring_participation'',
                       ''rapid_layered_outflow'', ''role_conflict''}
     \<and> (fan_in_classification
           (validateFanInTwoPhase accounts transactions graph cycles shellChains
              fanOutMap ! i) = Some confirmed_money_laundering) = (checks \<noteq> [])
     \<and> (fan_in_classification
           (validateFanInTwoPhase accounts transactions graph cycles shellChains
              fanOutMap ! i) = Some aggregation_candidate) = (checks = [])"
    by (simp add: check_names_def)
  then show ?thesis
    using True by (simp only: if_True) blast
next
  case False
  then have "validateFanInTwoPhase accounts transactions graph cycles shellChains fanOutMap ! i
      = accounts ! i"
    unfolding validateFanInTwoPhase_def Let_def
    by (intro fold_corroborate_other) simp
  with False show ?thesis
    by (simp only: if_False)
qed

theorem fan_in_classification_iff_checks_witness:
  "(0::nat) < length [mk_account ''R'' 10 4, mk_account ''N'' 0 1]
   \<and> (\<exists>c \<in> set (identifyAggregationCandidates scenario_txs).
         index_accounts [mk_account ''R'' 10 4, mk_account ''N'' 0 1] (accountId c) = Some 0)
   \<and> corroboration_checks
        (validateFanInTwoPhase [mk_account ''R'' 10 4, mk_account ''N'' 0 1] scenario_txs
           scenario_graph [] [] [] ! 0)
       = Some [''shell_chain_involvement'', ''rapid_layered_outflow'']
   \<and> fan_in_classification
        (validateFanInTwoPhase [mk_account ''R'' 10 4, mk_account ''N'' 0 1] scenario_txs
           scenario_graph [] [] [] ! 0)
       = Some confirmed_money_laundering
   \<and> (1::nat) < length [mk_account ''R'' 10 4, mk_account ''N'' 0 1]
   \<and> \<not> (\<exists>c \<in> set (identifyAggregationCandidates scenario_txs).
           index_accounts [mk_account ''R'' 10 4, mk_account ''N'' 0 1] (accountId c) = Some 1)
   \<and> validateFanInTwoPhase [mk_account ''R'' 10 4, mk_account ''N'' 0 1] scenario_txs
        scenario_graph [] [] [] ! 1
       = [mk_account ''R'' 10 4, mk_account ''N'' 0 1] ! 1
   \<and> (\<exists>c \<in> set (identifyAggregationCandidates fan_txs).
         index_accounts [mk_account ''R'' 10 4] (accountId c) = Some 0)
   \<and> corroboration_checks
        (validateFanInTwoPhase [mk_account ''R'' 10 4] fan_txs Map.empty [] [] [] ! 0) = Some []
   \<and> fan_in_classification
        (validateFanInTwoPhase [mk_account ''R'' 10 4] fan_txs Map.empty [] [] [] ! 0)
       = Some aggregation_candidate"
proof -
  have i1: "index_accounts [mk_account ''R'' 10 4] = [''R'' \<mapsto> 0]"
    by (simp add: index_accounts_def mk_account_def)
  show ?thesis
    using fan_in_classification_iff_checks
            [of 0 "[mk_account ''R'' 10 4, mk_account ''N'' 0 1]" scenario_txs scenario_graph
                "[]" "[]" "[]"]
          fan_in_classification_iff_checks
            [of 1 "[mk_account ''R'' 10 4, mk_account ''N'' 0 1]" scenario_txs scenario_graph
                "[]" "[]" "[]"]
          fan_in_classification_iff_checks
            [of 0 "[mk_account ''R'' 10 4]" fan_txs Map.empty "[]" "[]" "[]"]
    by (simp add: candidates_scenario_txs candidates_fan_txs index_scenario i1 validate_scenario
          validate_fan)
qed

subsection \<open>Candidates without an account\<close>

text \<open>
  Claim C9. A candidate whose id is not the id of any account leaves the accounts as
  they are, and the run is the run over the remaining candidates alone: nothing is
  raised, and the other candidates are processed.
\<close>

theorem missing_account_skipped:
  "validateFanInTwoPhase accounts transactions graph cycles shellChains fanOutMap
     = fold (corroborate transactions graph (index_accounts accounts) (set (concat cycles))
               (set (concat shellChains)) (fst ` set fanOutMap))
         (filter (\<lambda>c. accountId c \<in> account_id ` set accounts)
            (identifyAggregationCandidates transactions))
         accounts
   \<and> (\<forall>c s. accountId c \<notin> account_id ` set accounts \<longrightarrow>
          corroborate transactions graph (index_accounts accounts) (set (concat cycles))
            (set (concat shellChains)) (fst ` set fanOutMap) c s = s)"
proof -
  have eq: "filter (\<lambda>c. accountId c \<in> account_id ` set accounts)
               (identifyAggregationCandidates transactions)
            = filter (\<lambda>c. index_accounts accounts (accountId c) \<noteq> None)
               (identifyAggregationCandidates transactions)"
    by (rule filter_cong) (simp_all add: index_accounts_None)
  have "validateFanInTwoPhase accounts transactions graph cycles shellChains fanOutMap
     = fold (corroborate transactions graph (index_accounts accounts) (set (concat cycles))
               (set (concat shellChains)) (fst ` set fanOutMap))
         (filter (\<lambda>c. accountId c \<in> account_id ` set accounts)
            (identifyAggregationCandidates transactions))
         accounts"
    unfolding validateFanInTwoPhase_def Let_def eq
    by (rule fold_corroborate_filter)
  moreover have "\<forall>c s. accountId c \<notin> account_id ` set accounts \<longrightarrow>
          corroborate transactions graph (index_accounts accounts) (set (concat cycles))
            (set (concat shellChains)) (fst ` set fanOutMap) c s = s"
    by (simp add: corroborate_missing index_accounts_None)
  ultimately show ?thesis by blast
qed

theorem missing_account_skipped_witness:
  "''R'' \<notin> account_id ` set [mk_account ''Q'' 10 4]
   \<and> map accountId (identifyAggregationCandidates two_receiver_txs) = [''R'', ''Q'']
   \<and> map accountId
        (filter (\<lambda>c. accountId c \<in> account_id ` set [mk_account ''Q'' 10 4])
           (identifyAggregationCandidates two_receiver_txs)) = [''Q'']
   \<and> validateFanInTwoPhase [mk_account ''Q'' 10 4] two_receiver_txs Map.empty [] [] []
       = fold (corroborate two_receiver_txs Map.empty (index_accounts [mk_account ''Q'' 10 4])
                 {} {} {})
           (filter (\<lambda>c. accountId c \<in> account_id ` set [mk_account ''Q'' 10 4])
              (identifyAggregationCandidates two_receiver_txs))
           [mk_account ''Q'' 10 4]
   \<and> fan_in_classification
        (validateFanInTwoPhase [mk_account ''Q'' 10 4] two_receiver_txs Map.empty [] [] [] ! 0)
       = Some aggregation_candidate
   \<and> accountId (hd (identifyAggregationCandidates two_receiver_txs))
        \<notin> account_id ` set [mk_account ''Q'' 10 4]
   \<and> corroborate two_receiver_txs Map.empty (index_accounts [mk_account ''Q'' 10 4]) {} {} {}
        (hd (identifyAggregationCandidates two_receiver_txs)) [mk_account ''Q'' 10 4]
       = [mk_account ''Q'' 10 4]"
proof -
  have a: "''R'' \<notin> account_id ` set [mk_account ''Q'' 10 4]"
    by (simp add: mk_account_def)
  have b: "map accountId (identifyAggregationCandidates two_receiver_txs) = [''R'', ''Q'']"
    by (simp add: candidates_two_receiver_txs)
  have c: "map accountId
        (filter (\<lambda>c. accountId c \<in> account_id ` set [mk_account ''Q'' 10 4])
           (identifyAggregationCandidates two_receiver_txs)) = [''Q'']"
    by (simp add: candidates_two_receiver_txs mk_account_def)
  have d: "validateFanInTwoPhase [mk_account ''Q'' 10 4] two_receiver_txs Map.empty [] [] []
       = fold (corroborate two_receiver_txs Map.empty (index_accounts [mk_account ''Q'' 10 4])
                 {} {} {})
           (filter (\<lambda>c. accountId c \<in> account_id ` set [mk_account ''Q'' 10 4])
              (identifyAggregationCandidates two_receiver_txs))
           [mk_account ''Q'' 10 4]"
    using missing_account_skipped
            [of "[mk_account ''Q'' 10 4]" two_receiver_txs Map.empty "[]" "[]" "[]"]
    by simp
  have e: "fan_in_classification
        (validateFanInTwoPhase [mk_account ''Q'' 10 4] two_receiver_txs Map.empty [] [] [] ! 0)
       = Some aggregation_candidate"
    by (simp add: validate_two_receiver)
  have f: "accountId (hd (identifyAggregationCandidates two_receiver_txs))
        \<notin> account_id ` set [mk_account ''Q'' 10 4]"
    by (simp add: candidates_two_receiver_txs mk_account_def)
  have g: "corroborate two_receiver_txs Map.empty (index_accounts [mk_account ''Q'' 10 4]) {} {} {}
        (hd (identifyAggregationCandidates two_receiver_txs)) [mk_account ''Q'' 10 4]
       = [mk_account ''Q'' 10 4]"
    using missing_account_skipped
            [of "[mk_account ''Q'' 10 4]" two_receiver_txs Map.empty "[]" "[]" "[]"] f
    by simp
  from a b c d e f g show ?thesis
    by (intro conjI)
qed

section \<open>The sliding window of phase 1\<close>

subsection \<open>Grouping by receiver\<close>

lemma byReceiver_snoc: "byReceiver (txs @ [tx]) = push_by_receiver tx (byReceiver txs)"
  by (simp add: byReceiver_def)

lemma keys_push_by_receiver:
  "map fst (push_by_receiver tx m)
     = (if receiver_id tx \<in> fst ` set m then map fst m else map fst m @ [receiver_id tx])"
  by (auto simp: push_by_receiver_def Let_def map_of_eq_None_iff split_beta)

lemma keys_byReceiver: "fst ` set (byReceiver txs) = receiver_id ` set txs"
proof (induction txs rule: rev_induct)
  case Nil
  then show ?case by (simp add: byReceiver_def)
next
  case (snoc tx txs)
  have "fst ` set (byReceiver (txs @ [tx])) = set (map fst (push_by_receiver tx (byReceiver txs)))"
    by (simp only: byReceiver_snoc set_map)
  also have "\<dots> = insert (receiver_id tx) (fst ` set (byReceiver txs))"
    unfolding keys_push_by_receiver by auto
  finally show ?case using snoc.IH by simp
qed


lemma entry_push_by_receiver:
  assumes "(k, v) \<in> set (push_by_receiver tx m)"
  shows "(\<exists>v0. (k, v0) \<in> set m \<and> v = (if k = receiver_id tx then v0 @ [tx] else v0))
         \<or> (k = receiver_id tx \<and> k \<notin> fst ` set m \<and> v = [tx])"
  using assms
  by (auto simp: push_by_receiver_def Let_def map_of_eq_None_iff split: if_splits)

lemma entry_byReceiver:
  "(k, v) \<in> set (byReceiver txs) \<Longrightarrow> v = filter (\<lambda>tx. receiver_id tx = k) txs"
proof (induction txs arbitrary: k v rule: rev_induct)
  case Nil
  then show ?case by (simp add: byReceiver_def)
next
  case (snoc tx txs)
  from snoc.prems have "(k, v) \<in> set (push_by_receiver tx (byReceiver txs))"
    by (simp only: byReceiver_snoc)
  then consider v0 where "(k, v0) \<in> set (byReceiver txs)"
      "v = (if k = receiver_id tx then v0 @ [tx] else v0)"
    | "k = receiver_id tx" "k \<notin> fst ` set (byReceiver txs)" "v = [tx]"
    using entry_push_by_receiver by blast
  then show ?case
  proof cases
    case 1
    then show ?thesis using snoc.IH [of k v0] by simp
  next
    case 2
    then have "k \<notin> receiver_id ` set txs"
      using keys_byReceiver [of txs] by simp
    then have "filter (\<lambda>tx. receiver_id tx = k) txs = []"
      by (auto simp: filter_empty_conv)
    then have "filter (\<lambda>tx. receiver_id tx = k) (txs @ [tx]) = [tx]"
      using 2(1) by simp
    with 2(3) show ?thesis by simp
  qed
qed

subsection \<open>The senders of a window\<close>

lemma set_fold_set_add:
  "set (fold (\<lambda>i s. set_add (f i) s) js acc) = set acc \<union> f ` set js"
  by (induction js arbitrary: acc) (auto simp: set_add_def)

lemma distinct_fold_set_add:
  "distinct acc \<Longrightarrow> distinct (fold (\<lambda>i s. set_add (f i) s) js acc)"
  by (induction js arbitrary: acc) (auto simp: set_add_def)

lemma set_sendersInWindow:
  "set (sendersInWindow srt l r) = (\<lambda>i. sender_id (srt ! i)) ` {l..<Suc r}"
  by (simp add: sendersInWindow_def set_fold_set_add del: upt_Suc)

lemma distinct_sendersInWindow: "distinct (sendersInWindow srt l r)"
  by (simp add: sendersInWindow_def distinct_fold_set_add del: upt_Suc)

subsection \<open>The sliding window\<close>

lemma slide_left_bounds:
  "left \<le> right \<Longrightarrow>
   left \<le> slide_left srt right left \<and> slide_left srt right left \<le> right
   \<and> timestamp (srt ! right) - timestamp (srt ! slide_left srt right left) \<le> FAN_IN_WINDOW_MS"
proof (induction srt right left rule: slide_left.induct)
  case (1 srt right left)
  show ?case
  proof (cases "left < right \<and> timestamp (srt ! right) - timestamp (srt ! left) > FAN_IN_WINDOW_MS")
    case True
    then have "Suc left \<le> right" by simp
    with "1.IH" [OF True] have
      "Suc left \<le> slide_left srt right (Suc left) \<and> slide_left srt right (Suc left) \<le> right
       \<and> timestamp (srt ! right) - timestamp (srt ! slide_left srt right (Suc left))
           \<le> FAN_IN_WINDOW_MS"
      by simp
    moreover have "slide_left srt right left = slide_left srt right (Suc left)"
      using True by (subst slide_left.simps) auto
    ultimately show ?thesis by simp
  next
    case False
    then have eq: "slide_left srt right left = left"
      by (subst slide_left.simps) auto
    have "timestamp (srt ! right) - timestamp (srt ! left) \<le> FAN_IN_WINDOW_MS"
    proof (cases "left < right")
      case True
      with False show ?thesis by simp
    next
      case False
      with "1.prems" have "left = right" by simp
      then show ?thesis by (simp add: FAN_IN_WINDOW_MS_def)
    qed
    with "1.prems" show ?thesis unfolding eq by simp
  qed
qed

lemma window_step_fst:
  "fst (window_step srt right st) = slide_left srt right (fst st)"
  by (simp add: window_step_def Let_def split: option.splits prod.splits)

lemma window_step_snd:
  "snd (window_step srt right st) = snd st
   \<or> (MIN_UNIQUE_SENDERS \<le> length (sendersInWindow srt (slide_left srt right (fst st)) right)
       \<and> snd (window_step srt right st)
           = Some (sendersInWindow srt (slide_left srt right (fst st)) right,
                   slide_left srt right (fst st), right))"
  by (simp add: window_step_def Let_def split: option.splits prod.splits)

lemma window_step_inv:
  assumes "right < length srt" and "fst st \<le> right"
    and "\<forall>w. snd st = Some w \<longrightarrow> good_window srt w"
  shows "fst (window_step srt right st) \<le> Suc right
         \<and> (\<forall>w. snd (window_step srt right st) = Some w \<longrightarrow> good_window srt w)"
proof -
  let ?l = "slide_left srt right (fst st)"
  have b: "fst st \<le> ?l \<and> ?l \<le> right
      \<and> timestamp (srt ! right) - timestamp (srt ! ?l) \<le> FAN_IN_WINDOW_MS"
    using assms(2) by (rule slide_left_bounds)
  have new: "MIN_UNIQUE_SENDERS \<le> length (sendersInWindow srt ?l right) \<Longrightarrow>
             good_window srt (sendersInWindow srt ?l right, ?l, right)"
    using b assms(1) by (simp add: good_window_def)
  have "fst (window_step srt right st) \<le> Suc right"
    using b by (simp add: window_step_fst)
  moreover have "good_window srt w" if w: "snd (window_step srt right st) = Some w" for w
    using window_step_snd [of srt right st]
  proof
    assume "snd (window_step srt right st) = snd st"
    with w assms(3) show ?thesis by simp
  next
    assume "MIN_UNIQUE_SENDERS \<le> length (sendersInWindow srt ?l right)
       \<and> snd (window_step srt right st) = Some (sendersInWindow srt ?l right, ?l, right)"
    with w new show ?thesis by simp
  qed
  ultimately show ?thesis by blast
qed

lemma fold_window_inv:
  "n \<le> length srt \<Longrightarrow>
   fst (fold (window_step srt) [0..<n] (0, None)) \<le> n
   \<and> (\<forall>w. snd (fold (window_step srt) [0..<n] (0, None)) = Some w \<longrightarrow> good_window srt w)"
proof (induction n)
  case 0
  then show ?case by simp
next
  case (Suc n)
  let ?st = "fold (window_step srt) [0..<n] (0, None)"
  have step: "fold (window_step srt) [0..<Suc n] (0, None) = window_step srt n ?st"
    by simp
  from Suc.prems have n: "n < length srt" by simp
  then have "n \<le> length srt" by simp
  then have ih: "fst ?st \<le> n \<and> (\<forall>w. snd ?st = Some w \<longrightarrow> good_window srt w)"
    by (rule Suc.IH)
  show ?case
    unfolding step using window_step_inv [OF n] ih by blast
qed

lemma best_window_good: "best_window srt = Some w \<Longrightarrow> good_window srt w"
  using fold_window_inv [of "length srt" srt] by (simp add: best_window_def)

subsection \<open>Candidates have a window\<close>

lemma spec_window_senders_set:
  "spec_window_senders txs t
     = sender_id ` {tx \<in> set txs. t \<le> timestamp tx \<and> timestamp tx \<le> t + FAN_IN_WINDOW_MS}"
  by (simp add: spec_window_senders_def)

lemma good_window_spec:
  assumes srt: "sorted (map timestamp srt)" and good: "good_window srt (bs, bl, br)"
  shows "MIN_UNIQUE_SENDERS \<le> card (spec_window_senders srt (timestamp (srt ! bl)))"
proof -
  from good have bl: "bl \<le> br" and br: "br < length srt"
    and bs: "bs = sendersInWindow srt bl br" and n: "MIN_UNIQUE_SENDERS \<le> length bs"
    and w: "timestamp (srt ! br) - timestamp (srt ! bl) \<le> FAN_IN_WINDOW_MS"
    by (auto simp: good_window_def)
  have "set bs \<subseteq> spec_window_senders srt (timestamp (srt ! bl))"
  proof
    fix s assume "s \<in> set bs"
    then obtain j where j: "bl \<le> j" "j \<le> br" and s: "s = sender_id (srt ! j)"
      unfolding bs set_sendersInWindow by auto
    from j br have jl: "j < length srt" by simp
    have "map timestamp srt ! bl \<le> map timestamp srt ! j"
      using srt j(1) jl by (intro sorted_nth_mono) simp_all
    then have lo: "timestamp (srt ! bl) \<le> timestamp (srt ! j)"
      using jl j(1) by simp
    have "map timestamp srt ! j \<le> map timestamp srt ! br"
      using srt j(2) br by (intro sorted_nth_mono) simp_all
    then have "timestamp (srt ! j) \<le> timestamp (srt ! br)"
      using jl br by simp
    with w have hi: "timestamp (srt ! j) \<le> timestamp (srt ! bl) + FAN_IN_WINDOW_MS"
      by simp
    have "srt ! j \<in> set srt" using jl by simp
    with lo hi s show "s \<in> spec_window_senders srt (timestamp (srt ! bl))"
      unfolding spec_window_senders_set by blast
  qed
  moreover have "finite (spec_window_senders srt (timestamp (srt ! bl)))"
    by (simp add: spec_window_senders_def)
  ultimately have "card (set bs) \<le> card (spec_window_senders srt (timestamp (srt ! bl)))"
    by (intro card_mono)
  moreover have "card (set bs) = length bs"
    unfolding bs by (intro distinct_card distinct_sendersInWindow)
  ultimately show ?thesis using n by simp
qed

lemma candidates_of_receiver_window:
  assumes "c \<in> set (candidates_of_receiver (k, v))"
  shows "accountId c = k \<and> best_window (sort_key timestamp v) \<noteq> None"
proof (cases "best_window (sort_key timestamp v)")
  case None
  with assms show ?thesis
    by (simp add: candidates_of_receiver_def)
next
  case (Some w)
  with assms show ?thesis
    by (cases w) (auto simp: candidates_of_receiver_def Let_def)
qed

lemma candidate_has_window:
  assumes "c \<in> set (identifyAggregationCandidates transactions)"
  shows "spec_has_fan_in_window transactions (accountId c)"
proof -
  from assms obtain k v where kv: "(k, v) \<in> set (byReceiver transactions)"
    and c: "c \<in> set (candidates_of_receiver (k, v))"
    by (auto simp: identifyAggregationCandidates_def)
  from c obtain bs bl br where k: "accountId c = k"
    and best: "best_window (sort_key timestamp v) = Some (bs, bl, br)"
    using candidates_of_receiver_window [of c k v]
    by (cases "best_window (sort_key timestamp v)") auto
  have v: "v = spec_incoming transactions k"
    using kv by (simp add: entry_byReceiver spec_incoming_def)
  let ?srt = "sort_key timestamp v"
  have "good_window ?srt (bs, bl, br)"
    using best by (rule best_window_good)
  moreover have "sorted (map timestamp ?srt)"
    by (rule sorted_sort_key)
  ultimately have "MIN_UNIQUE_SENDERS \<le> card (spec_window_senders ?srt (timestamp (?srt ! bl)))"
    by (intro good_window_spec)
  moreover have "spec_window_senders ?srt (timestamp (?srt ! bl))
                   = spec_window_senders v (timestamp (?srt ! bl))"
    by (simp add: spec_window_senders_set)
  ultimately show ?thesis
    unfolding spec_has_fan_in_window_def k v [symmetric] by auto
qed

text \<open>
  Claim C2. If no 72-hour window of the transactions an account receives contains
  three or more distinct senders, the fan-in engine returns that account exactly as
  it was passed in, whatever the batch, the graph and the other inputs are. A window
  is a closed interval of 72 hours: two timestamps exactly 72 hours apart share one.
\<close>

theorem no_window_no_assignment:
  assumes "i < length accounts"
    and "\<not> spec_has_fan_in_window transactions (account_id (accounts ! i))"
  shows "validateFanInTwoPhase accounts transactions graph cycles shellChains fanOutMap ! i
           = accounts ! i"
proof -
  have "index_accounts accounts (accountId c) \<noteq> Some i"
    if "c \<in> set (identifyAggregationCandidates transactions)" for c
  proof
    assume "index_accounts accounts (accountId c) = Some i"
    then have "account_id (accounts ! i) = accountId c"
      by (simp add: index_accounts_Some)
    with candidate_has_window [OF that] assms(2) show False by simp
  qed
  then show ?thesis
    unfolding validateFanInTwoPhase_def Let_def
    by (intro fold_corroborate_other) simp
qed

lemma no_window_spread: "\<not> spec_has_fan_in_window spread_txs ''R''"
  by (auto simp: spec_has_fan_in_window_def spec_window_senders_def spec_incoming_def
        spread_txs_def mk_tx_def hour_ms_def FAN_IN_WINDOW_MS_def MIN_UNIQUE_SENDERS_def
        card_insert_if)

theorem no_window_no_assignment_witness:
  "(0::nat) < length [mk_account ''R'' 10 4]
   \<and> \<not> spec_has_fan_in_window spread_txs (account_id ([mk_account ''R'' 10 4] ! 0))
   \<and> card (sender_id ` set (spec_incoming spread_txs ''R'')) = 3
   \<and> validateFanInTwoPhase [mk_account ''R'' 10 4] spread_txs Map.empty [] [] [] ! 0
       = [mk_account ''R'' 10 4] ! 0"
proof -
  have a: "account_id ([mk_account ''R'' 10 4] ! 0) = ''R''"
    by (simp add: mk_account_def)
  have b: "card (sender_id ` set (spec_incoming spread_txs ''R'')) = 3"
    by (simp add: spec_incoming_def spread_txs_def mk_tx_def)
  show ?thesis
    using no_window_no_assignment [of 0 "[mk_account ''R'' 10 4]" spread_txs Map.empty "[]" "[]" "[]"]
      no_window_spread b
    unfolding a by simp
qed

section \<open>Running an engine on its own output\<close>

subsection \<open>What a run reads and what it leaves alone\<close>











subsection \<open>One candidate per receiver\<close>




subsection \<open>Classifying an account twice\<close>

lemma classify_explanation:
  "\<exists>fragment. fragment \<noteq> [] \<and> explanation (classify checks a) = explanation a @ fragment"
  by (simp add: classify_def Let_def)


lemma classify_changes: "classify checks a \<noteq> a"
proof
  assume "classify checks a = a"
  then have "explanation (classify checks a) = explanation a" by simp
  with classify_explanation [of checks a] show False by auto
qed


subsection \<open>The account a candidate is looked up to, after the loop\<close>










subsection \<open>Running the relationship intelligence engine twice\<close>


subsection \<open>Neither engine is idempotent\<close>





end
